theory Spec2Isabelle
  imports Complex_Main
begin

section \<open>The dead-time model of stingray/deadtime/model.py\<close>

text \<open>
  The module computes the power spectrum of a light curve affected by dead time
  (Zhang et al. 1995). Its functions are embedded one by one, under these conventions:
  \<^item> a Python float is a \<^typ>\<open>real\<close>: rounding, overflow and underflow are not part of
    the model, every operation is exact;
  \<^item> a Python int is an \<^typ>\<open>int\<close>; the loop indices \<open>n\<close> and \<open>m\<close>, which only ever come
    from \<open>range(1, ...)\<close> and \<open>range(0, n)\<close>, are \<^typ>\<open>nat\<close>;
  \<^item> an exception is a value: every function that can raise returns \<open>error + 'a\<close>.
    A division by zero is \<open>ZeroDivisionError\<close>, as for Python floats and in code compiled
    by numba. (Run uncompiled, a division whose dividend is a NumPy scalar returns \<open>inf\<close>
    or \<open>nan\<close> instead: in \<open>sterling_factor\<close> at \<open>m = 0\<close>, and in \<open>B_raw\<close> at \<open>r0 * tb = 0\<close> when
    \<open>A_single_k\<close> has returned a NumPy scalar. No property below rests on such a division:
    where one concludes \<open>ZeroDivisionError\<close>, the operands are Python numbers.)
  \<^item> a read of an array outside its bounds is the value \<open>IndexError\<close>. NumPy raises it. The
    source has no bounds check of its own, and where numba compiles the function (the
    \<open>njit\<close> decorator) the read is not checked at all: the value \<open>IndexError\<close> then says that
    the read is outside the array, and the model does not say what a compiled run does
    after it;
  \<^item> \<open>np.log10\<close> returns \<open>-inf\<close> at zero and \<open>nan\<close> below zero; the two comparisons of
    the module that read such a value are written out case by case.
\<close>

subsection \<open>Errors\<close>

datatype error = ZeroDivisionError | IndexError | ValueError

definition bindE :: "error + 'a \<Rightarrow> ('a \<Rightarrow> error + 'b) \<Rightarrow> error + 'b" where
  "bindE r f = (case r of Inl e \<Rightarrow> Inl e | Inr v \<Rightarrow> f v)"

text \<open>\<open>a / b\<close> on floats.\<close>

definition divide_py :: "real \<Rightarrow> real \<Rightarrow> error + real" where
  "divide_py a b = (if b = 0 then Inl ZeroDivisionError else Inr (a / b))"

text \<open>
  \<open>a[i]\<close> on a one-dimensional array, for an index that is not negative. The bounds check
  is NumPy's, not the source's: \<open>Inl IndexError\<close> marks a read outside the array.
\<close>

definition getitem :: "real list \<Rightarrow> nat \<Rightarrow> error + real" where
  "getitem a i = (if i < length a then Inr (a ! i) else Inl IndexError)"

text \<open>\<open>int(x)\<close> on a float: truncation towards zero.\<close>

definition py_int :: "real \<Rightarrow> int" where
  "py_int x = (if 0 \<le> x then \<lfloor>x\<rfloor> else \<lceil>x\<rceil>)"

text \<open>
  \<open>for i in xs: s += f(i)\<close>, started with \<open>s\<close>; the first call that raises ends the loop.
\<close>

fun accumulate :: "('i \<Rightarrow> error + real) \<Rightarrow> 'i list \<Rightarrow> real \<Rightarrow> error + real" where
  "accumulate f [] s = Inr s"
| "accumulate f (i # is) s = bindE (f i) (\<lambda>v. accumulate f is (s + v))"

text \<open>\<open>for i in xs: P[i] = f(i)\<close> on a fresh array \<open>P\<close>.\<close>

fun fill :: "('i \<Rightarrow> error + real) \<Rightarrow> 'i list \<Rightarrow> error + real list" where
  "fill f [] = Inr []"
| "fill f (i # is) = bindE (f i) (\<lambda>v. bindE (fill f is) (\<lambda>vs. Inr (v # vs)))"

subsection \<open>Module constants\<close>

definition MAX_FACTORIAL :: nat where
  "MAX_FACTORIAL = 100"

definition INVERSE_FACTORIALS :: "real list" where
  "INVERSE_FACTORIALS = map (\<lambda>i. 1 / fact i) [0..<MAX_FACTORIAL]"

definition PRECISION :: real where
  "PRECISION = 15"

definition TWOPI :: real where
  "TWOPI = pi * 2"

definition STERLING_PARAMETERS :: "real list" where
  "STERLING_PARAMETERS = [1 / 12, 1 / 288, - 139 / 51840, - 571 / 2488320]"

subsection \<open>The ratio \<open>exp(-x) x^m / m!\<close>\<close>

definition sterling_factor :: "nat \<Rightarrow> error + real" where
  "sterling_factor m =
     (if m = 0 then Inl ZeroDivisionError
      else Inr (1 + STERLING_PARAMETERS ! 0 / real m
                  + STERLING_PARAMETERS ! 1 / real m ^ 2
                  + STERLING_PARAMETERS ! 2 / real m ^ 3
                  + STERLING_PARAMETERS ! 3 / real m ^ 4))"

text \<open>
  The test \<open>m * np.log10(x) < 50\<close>. For \<open>x = 0\<close> the logarithm is \<open>-inf\<close>: the product is
  \<open>-inf\<close>, below 50, unless \<open>m = 0\<close>, where it is \<open>nan\<close> and the comparison is false. For
  \<open>x < 0\<close> the logarithm is \<open>nan\<close> and the comparison is false.
\<close>

definition direct_formula :: "real \<Rightarrow> nat \<Rightarrow> bool" where
  "direct_formula x m =
     (if 0 < x then real m * log 10 x < 50 else if x = 0 then 0 < m else False)"

definition e_m_x_x_over_factorial :: "real \<Rightarrow> nat \<Rightarrow> error + real" where
  "e_m_x_x_over_factorial x m =
     (if x = 0 \<and> m = 0 then Inr 1
      else if direct_formula x m then
        bindE (getitem INVERSE_FACTORIALS m) (\<lambda>inv_fact. Inr (exp (- x) * x ^ m * inv_fact))
      else
        bindE (divide_py 1 (sqrt (TWOPI * real m))) (\<lambda>a.
        bindE (divide_py x (real m)) (\<lambda>x_over_m.
        bindE (divide_py (x * exp (1 - x_over_m)) (real m)) (\<lambda>b.
        bindE (sterling_factor m) (\<lambda>sf.
        divide_py (a * b ^ m) sf)))))"

subsection \<open>Conversion between incident and detected count rate\<close>

definition r_in :: "real \<Rightarrow> real \<Rightarrow> error + real" where
  "r_in td r_0 = bindE (divide_py 1 r_0) (\<lambda>tau. divide_py 1 (tau - td))"

definition r_det :: "real \<Rightarrow> real \<Rightarrow> error + real" where
  "r_det td r_i = bindE (divide_py 1 r_i) (\<lambda>tau. divide_py 1 (tau + td))"

subsection \<open>The truncated series \<open>Gn\<close>\<close>

text \<open>
  The test \<open>-np.log10(np.abs(r)) > PRECISION\<close>. For \<open>r = 0\<close> the logarithm is \<open>-inf\<close> and
  the test holds.
\<close>

definition negligible :: "real \<Rightarrow> bool" where
  "negligible r = (if r = 0 then True else - log 10 \<bar>r\<bar> > PRECISION)"

text \<open>
  The loop \<open>for m in range(0, n)\<close> of \<open>Gn\<close>, from index \<open>m\<close> on, with the sum \<open>s\<close> so
  far. The \<open>and\<close> of the exit test evaluates \<open>new_val / s\<close> only when \<open>x != 0\<close> and
  \<open>m > 2 * x\<close>.
\<close>

function Gn_loop :: "real \<Rightarrow> nat \<Rightarrow> nat \<Rightarrow> real \<Rightarrow> error + real" where
  "Gn_loop x n m s =
     (if m < n then
        bindE (e_m_x_x_over_factorial x m) (\<lambda>e.
          let new_val = e * (real n - real m);
              s' = s + new_val
          in if x \<noteq> 0 \<and> real m > 2 * x then
               bindE (divide_py new_val s') (\<lambda>r.
                 if negligible r then Inr s' else Gn_loop x n (m + 1) s')
             else Gn_loop x n (m + 1) s')
      else Inr s)"
  by pat_completeness auto
termination
  by (relation "measure (\<lambda>(x, n, m, s). n - m)") auto

definition Gn :: "real \<Rightarrow> nat \<Rightarrow> error + real" where
  "Gn x n = Gn_loop x n 0 0"

subsection \<open>The block term \<open>h\<close>\<close>

definition h :: "int \<Rightarrow> nat \<Rightarrow> real \<Rightarrow> real \<Rightarrow> real \<Rightarrow> error + real" where
  "h k n td tb tau =
     (let factor = real_of_int k * tb - real n * td
      in if real_of_int k * tb - real n * td < 0 then Inr 0
         else
           bindE (divide_py (real n * (td + tau)) tb) (\<lambda>a.
           bindE (divide_py tau tb) (\<lambda>b.
           bindE (divide_py factor tau) (\<lambda>x.
           bindE (Gn x n) (\<lambda>g.
           Inr (real_of_int k - a + b * g))))))"

subsection \<open>The terms \<open>A\<close> and \<open>B\<close>\<close>

definition A0 :: "real \<Rightarrow> real \<Rightarrow> real \<Rightarrow> real \<Rightarrow> error + real" where
  "A0 r0 td tb tau =
     bindE (divide_py tb td) (\<lambda>q.
     bindE (accumulate (\<lambda>n. h 1 n td tb tau) [1..<nat (py_int (max 1 (q + 1)))] 0) (\<lambda>s.
     Inr (r0 * tb * (1 + 2 * s))))"

definition A_single_k :: "int \<Rightarrow> real \<Rightarrow> real \<Rightarrow> real \<Rightarrow> real \<Rightarrow> error + real" where
  "A_single_k k r0 td tb tau =
     (if k = 0 then A0 r0 td tb tau
      else
        bindE (divide_py (real_of_int (k + 2) * tb) td) (\<lambda>q.
        bindE (accumulate
                 (\<lambda>n. bindE (h (k + 1) n td tb tau) (\<lambda>h1.
                       bindE (h k n td tb tau) (\<lambda>h2.
                       bindE (h (k - 1) n td tb tau) (\<lambda>h3.
                       Inr (h1 - 2 * h2 + h3)))))
                 [1..<nat (py_int (max 1 q) * 3)] 0) (\<lambda>s.
        Inr (r0 * tb * s))))"

definition B_raw :: "int \<Rightarrow> real \<Rightarrow> real \<Rightarrow> real \<Rightarrow> real \<Rightarrow> error + real" where
  "B_raw k r0 td tb tau =
     (if k = 0 then
        bindE (A_single_k 0 r0 td tb tau) (\<lambda>a.
        divide_py (2 * (a - r0 ^ 2 * tb ^ 2)) (r0 * tb))
      else
        bindE (A_single_k k r0 td tb tau) (\<lambda>a.
        divide_py (4 * (a - r0 ^ 2 * tb ^ 2)) (r0 * tb)))"

definition safe_B_single_k :: "int \<Rightarrow> real \<Rightarrow> real \<Rightarrow> real \<Rightarrow> real \<Rightarrow> int \<Rightarrow> error + real" where
  "safe_B_single_k k r0 td tb tau limit_k =
     (if k > limit_k then Inr 0 else B_raw k r0 td tb tau)"

text \<open>The default value of the parameter \<open>limit_k\<close>.\<close>

definition default_limit_k :: int where
  "default_limit_k = 60"

subsection \<open>The power spectrum\<close>

text \<open>
  The loops of \<open>_inner_loop_pds_zhang\<close>, inside out: the value \<open>new_val\<close> added to
  \<open>eq8_sum\<close> for the lag \<open>k\<close>, the value stored in \<open>P[j]\<close>, and the whole array.
  \<open>np.zeros\<close> raises \<open>ValueError\<close> for a negative length. The assignment to \<open>P[j]\<close> calls
  \<open>safe_B_single_k(0, ...)\<close> without \<open>limit_k\<close>, hence with its default value.
\<close>

definition eq8_new_val ::
  "int \<Rightarrow> real \<Rightarrow> real \<Rightarrow> real \<Rightarrow> real \<Rightarrow> int \<Rightarrow> int \<Rightarrow> int \<Rightarrow> error + real" where
  "eq8_new_val N tau r0 td tb limit_k j k =
     bindE (divide_py (real_of_int (N - k)) (real_of_int N)) (\<lambda>w.
     bindE (safe_B_single_k k r0 td tb tau limit_k) (\<lambda>b.
     bindE (divide_py (2 * pi * real_of_int j * real_of_int k) (real_of_int N)) (\<lambda>a.
     Inr (w * b * cos a))))"

definition P_at ::
  "int \<Rightarrow> real \<Rightarrow> real \<Rightarrow> real \<Rightarrow> real \<Rightarrow> int \<Rightarrow> int \<Rightarrow> error + real" where
  "P_at N tau r0 td tb limit_k j =
     bindE (accumulate (eq8_new_val N tau r0 td tb limit_k j) [1..min N limit_k - 1] 0)
       (\<lambda>eq8_sum.
     bindE (safe_B_single_k 0 r0 td tb tau default_limit_k) (\<lambda>b0.
     Inr (b0 + eq8_sum)))"

definition inner_loop_pds_zhang ::
  "int \<Rightarrow> real \<Rightarrow> real \<Rightarrow> real \<Rightarrow> real \<Rightarrow> int \<Rightarrow> error + real list" where
  "inner_loop_pds_zhang N tau r0 td tb limit_k =
     (if N div 2 < 0 then Inl ValueError
      else fill (P_at N tau r0 td tb limit_k) [0..N div 2 - 1])"

text \<open>
  \<open>np.arange(start, stop, step)\<close> on floats: \<open>ceil((stop - start) / step)\<close> values
  \<open>start + i * step\<close>, none when that number is negative; a zero step is refused. The
  quotient is exact here. In doubles it is rounded, and for \<open>step = stop / n\<close> it can come
  out above \<open>n\<close>, which gives one value more (50 values for \<open>stop = 1.0\<close>, \<open>n = 49\<close>): the
  number of frequencies in the model is the one of exact arithmetic.
\<close>

definition arange :: "real \<Rightarrow> real \<Rightarrow> real \<Rightarrow> error + real list" where
  "arange start stop step =
     (if step = 0 then Inl ValueError
      else Inr (map (\<lambda>i. start + real i * step) [0..<nat \<lceil>(stop - start) / step\<rceil>]))"

text \<open>
  The result of \<open>pds_model_zhang\<close>: the pair \<open>freqs, P\<close> it returns, and whether the warning
  on a bin time much larger than the dead time was issued (its message evaluates
  \<open>tb / td\<close>).
\<close>

record pds =
  freqs :: "real list"
  power :: "real list"
  warned :: bool

definition pds_model_zhang :: "int \<Rightarrow> real \<Rightarrow> real \<Rightarrow> real \<Rightarrow> int \<Rightarrow> error + pds" where
  "pds_model_zhang N rate td tb limit_k =
     bindE (divide_py 1 rate) (\<lambda>tau.
     bindE (r_det td rate) (\<lambda>r0.
     bindE (inner_loop_pds_zhang N tau r0 td tb limit_k) (\<lambda>P.
     bindE (if tb > 100 * td then bindE (divide_py tb td) (\<lambda>q. Inr True) else Inr False) (\<lambda>w.
     bindE (divide_py 0.5 tb) (\<lambda>maxf.
     bindE (divide_py maxf (real (length P))) (\<lambda>df.
     bindE (arange 0 maxf df) (\<lambda>fs.
     Inr \<lparr>freqs = fs, power = P, warned = w\<rparr>)))))))"

section \<open>Auxiliary facts\<close>

subsection \<open>Errors, divisions and the table\<close>

lemma bindE_Inr [simp]: "bindE (Inr v) f = f v"
  by (simp add: bindE_def)

lemma bindE_Inl [simp]: "bindE (Inl e) f = Inl e"
  by (simp add: bindE_def)

lemma divide_py_nonzero [simp]: "b \<noteq> 0 \<Longrightarrow> divide_py a b = Inr (a / b)"
  by (simp add: divide_py_def)

lemma divide_py_zero [simp]: "divide_py a 0 = Inl ZeroDivisionError"
  by (simp add: divide_py_def)

lemma length_INVERSE_FACTORIALS [simp]: "length INVERSE_FACTORIALS = 100"
  by (simp add: INVERSE_FACTORIALS_def MAX_FACTORIAL_def)

lemma nth_INVERSE_FACTORIALS [simp]: "m < 100 \<Longrightarrow> INVERSE_FACTORIALS ! m = 1 / fact m"
  by (simp add: INVERSE_FACTORIALS_def MAX_FACTORIAL_def)

lemma getitem_INVERSE_FACTORIALS:
  "getitem INVERSE_FACTORIALS m = (if m < 100 then Inr (1 / fact m) else Inl IndexError)"
  by (simp add: getitem_def)

lemma direct_formula_zero_index: "0 < x \<Longrightarrow> direct_formula x 0"
  by (simp add: direct_formula_def)

subsection \<open>The series at \<open>x = 0\<close>: every term but the first vanishes\<close>

declare Gn_loop.simps [simp del]

lemma e_m_x_x_over_factorial_at_zero:
  "0 < m \<Longrightarrow> e_m_x_x_over_factorial 0 m = (if m < 100 then Inr 0 else Inl IndexError)"
  by (simp add: e_m_x_x_over_factorial_def direct_formula_def getitem_INVERSE_FACTORIALS)

lemma Gn_loop_at_zero:
  "0 < m \<Longrightarrow> n \<le> 100 \<Longrightarrow> Gn_loop 0 n m s = Inr s"
proof (induction "n - m" arbitrary: m s)
  case 0
  then show ?case by (simp add: Gn_loop.simps)
next
  case (Suc d)
  then have "m < n" and "m < 100" and step: "Gn_loop 0 n (m + 1) s = Inr s"
    by auto
  then show ?case
    using Suc.prems by (subst Gn_loop.simps) (simp add: e_m_x_x_over_factorial_at_zero)
qed

lemma Gn_loop_at_zero_overflow:
  "0 < m \<Longrightarrow> m \<le> 100 \<Longrightarrow> 100 < n \<Longrightarrow> Gn_loop 0 n m s = Inl IndexError"
proof (induction "100 - m" arbitrary: m s)
  case 0
  then have "m = 100" by simp
  then show ?case
    using "0.prems" by (subst Gn_loop.simps) (simp add: e_m_x_x_over_factorial_at_zero)
next
  case (Suc d)
  then have "m < n" and "m < 100" and step: "Gn_loop 0 n (m + 1) s = Inl IndexError"
    by auto
  then show ?case
    using Suc.prems by (subst Gn_loop.simps) (simp add: e_m_x_x_over_factorial_at_zero)
qed

lemma Gn_at_zero: "n \<le> 100 \<Longrightarrow> Gn 0 n = Inr (real n)"
proof (cases "n = 0")
  case True
  then show ?thesis by (simp add: Gn_def Gn_loop.simps)
next
  case False
  assume "n \<le> 100"
  with False have "Gn_loop 0 n 1 (real n) = Inr (real n)"
    by (simp add: Gn_loop_at_zero)
  with False show ?thesis
    unfolding Gn_def
    by (subst Gn_loop.simps) (simp add: e_m_x_x_over_factorial_def)
qed

lemma Gn_at_zero_overflow: "100 < n \<Longrightarrow> Gn 0 n = Inl IndexError"
proof -
  assume "100 < n"
  then have "Gn_loop 0 n 1 (real n) = Inl IndexError"
    by (simp add: Gn_loop_at_zero_overflow)
  with \<open>100 < n\<close> show ?thesis
    unfolding Gn_def
    by (subst Gn_loop.simps) (simp add: e_m_x_x_over_factorial_def)
qed

lemma h_at_boundary:
  assumes "real_of_int k * tb - real n * td = 0" and "tb \<noteq> 0" and "tau \<noteq> 0" and "n \<le> 100"
  shows "h k n td tb tau = Inr (real_of_int k - real n * td / tb)"
  using assms by (simp add: h_def Gn_at_zero field_simps)

subsection \<open>When a loop returns\<close>

lemma bindE_eq_Inr: "bindE r f = Inr v \<longleftrightarrow> (\<exists>u. r = Inr u \<and> f u = Inr v)"
  by (cases r) simp_all

lemma accumulate_eq_Inr:
  "accumulate f xs s = Inr v \<longleftrightarrow>
     (\<exists>g. (\<forall>i\<in>set xs. f i = Inr (g i)) \<and> v = s + sum_list (map g xs))"
proof (induction xs arbitrary: s)
  case Nil
  then show ?case by auto
next
  case (Cons x xs)
  show ?case
  proof
    assume "accumulate f (x # xs) s = Inr v"
    then obtain u where u: "f x = Inr u" and rest: "accumulate f xs (s + u) = Inr v"
      by (auto simp: bindE_eq_Inr)
    from rest Cons.IH obtain g where
      g: "\<forall>i\<in>set xs. f i = Inr (g i)" and v: "v = s + u + sum_list (map g xs)"
      by blast
    let ?g = "\<lambda>i. projr (f i)"
    have "\<forall>i\<in>set (x # xs). f i = Inr (?g i)"
      using u g by auto
    moreover have "sum_list (map ?g xs) = sum_list (map g xs)"
      using g by (intro arg_cong [where f = sum_list] map_cong) auto
    ultimately show "\<exists>g. (\<forall>i\<in>set (x # xs). f i = Inr (g i)) \<and> v = s + sum_list (map g (x # xs))"
      using u v by (intro exI [of _ ?g]) auto
  next
    assume "\<exists>g. (\<forall>i\<in>set (x # xs). f i = Inr (g i)) \<and> v = s + sum_list (map g (x # xs))"
    then obtain g where
      g: "\<forall>i\<in>set (x # xs). f i = Inr (g i)" and v: "v = s + sum_list (map g (x # xs))"
      by blast
    then have "accumulate f xs (s + g x) = Inr v"
      using Cons.IH [of "s + g x"] by auto
    with g show "accumulate f (x # xs) s = Inr v"
      by simp
  qed
qed

lemma accumulate_Inr:
  "(\<And>i. i \<in> set xs \<Longrightarrow> f i = Inr (g i)) \<Longrightarrow> accumulate f xs s = Inr (s + sum_list (map g xs))"
  by (auto simp: accumulate_eq_Inr)

lemma fill_eq_Inr:
  "fill f xs = Inr vs \<longleftrightarrow> length vs = length xs \<and> (\<forall>i<length xs. f (xs ! i) = Inr (vs ! i))"
proof (induction xs arbitrary: vs)
  case Nil
  then show ?case by auto
next
  case (Cons x xs)
  show ?case
  proof (cases vs)
    case Nil
    then show ?thesis by (auto simp: bindE_eq_Inr)
  next
    case (Cons w ws)
    have "fill f (x # xs) = Inr (w # ws) \<longleftrightarrow> f x = Inr w \<and> fill f xs = Inr ws"
      by (auto simp: bindE_eq_Inr)
    also have "\<dots> \<longleftrightarrow> f x = Inr w \<and> length ws = length xs \<and> (\<forall>i<length xs. f (xs ! i) = Inr (ws ! i))"
      by (simp add: Cons.IH)
    also have "\<dots> \<longleftrightarrow> length (w # ws) = length (x # xs) \<and>
        (\<forall>i<length (x # xs). f ((x # xs) ! i) = Inr ((w # ws) ! i))"
      by (auto simp: nth_Cons split: nat.splits)
    finally show ?thesis
      using Cons by simp
  qed
qed

subsection \<open>The loop bounds of \<open>A0\<close> and \<open>A_single_k\<close>\<close>

lemma h_outside_support:
  "real_of_int k * tb - real n * td < 0 \<Longrightarrow> h k n td tb tau = Inr 0"
  by (simp add: h_def)

lemma py_int_floor: "0 \<le> x \<Longrightarrow> py_int x = \<lfloor>x\<rfloor>"
  by (simp add: py_int_def)

lemma sum_zero_tail:
  fixes f :: "nat \<Rightarrow> real"
  assumes "M \<le> Suc N" and "\<And>n. M \<le> n \<Longrightarrow> n \<le> N \<Longrightarrow> f n = 0"
  shows "(\<Sum>n = 1..N. f n) = sum_list (map f [1..<M])"
proof -
  have "{1..N} = {1..<M} \<union> {M..N} \<or> M = 0"
    using assms(1) by auto
  then show ?thesis
  proof
    assume split: "{1..N} = {1..<M} \<union> {M..N}"
    have "(\<Sum>n = 1..N. f n) = sum f {1..<M} + sum f {M..N}"
      unfolding split by (rule sum.union_disjoint) auto
    also have "sum f {M..N} = 0"
      using assms(2) by (intro sum.neutral) auto
    finally show ?thesis
      by (simp add: interv_sum_list_conv_sum_set_nat)
  next
    assume "M = 0"
    then show ?thesis using assms(2) by simp
  qed
qed

lemma A0_bound:
  assumes "0 < td" and "0 < tb"
  shows "nat (py_int (max 1 (tb / td + 1))) = nat \<lfloor>max 1 (tb / td + 1)\<rfloor>"
    and "1 \<le> nat \<lfloor>max 1 (tb / td + 1)\<rfloor>"
    and "real_of_int 1 * tb - real (nat \<lfloor>max 1 (tb / td + 1)\<rfloor>) * td < 0"
proof -
  let ?y = "max 1 (tb / td + 1)"
  have y: "1 \<le> ?y" by simp
  then show "nat (py_int ?y) = nat \<lfloor>?y\<rfloor>"
    by (simp add: py_int_floor)
  have fl: "1 \<le> \<lfloor>?y\<rfloor>"
    using y by (simp add: le_floor_iff)
  then show "1 \<le> nat \<lfloor>?y\<rfloor>" by linarith
  have "tb / td \<le> ?y - 1" by simp
  also have "?y - 1 < real_of_int \<lfloor>?y\<rfloor>" by linarith
  finally have "tb / td < real_of_int \<lfloor>?y\<rfloor>" .
  then have "tb < real_of_int \<lfloor>?y\<rfloor> * td"
    using pos_divide_less_eq [OF assms(1)] by blast
  moreover have "real (nat \<lfloor>?y\<rfloor>) = real_of_int \<lfloor>?y\<rfloor>"
    using fl by simp
  ultimately show "real_of_int 1 * tb - real (nat \<lfloor>?y\<rfloor>) * td < 0"
    by simp
qed

lemma A_single_k_bound:
  assumes "1 \<le> k" and "0 < td" and "0 < tb"
  shows "nat (py_int (max 1 (real_of_int (k + 2) * tb / td)) * 3) =
           3 * nat \<lfloor>max 1 (real_of_int (k + 2) * tb / td)\<rfloor>"
    and "\<And>n. 3 * nat \<lfloor>max 1 (real_of_int (k + 2) * tb / td)\<rfloor> \<le> n \<Longrightarrow>
           real_of_int (k + 1) * tb - real n * td < 0"
proof -
  let ?q = "real_of_int (k + 2) * tb / td"
  let ?y = "max 1 ?q"
  have fl: "1 \<le> \<lfloor>?y\<rfloor>"
    by (simp add: le_floor_iff)
  have "py_int ?y = \<lfloor>?y\<rfloor>"
    by (simp add: py_int_floor)
  then show "nat (py_int ?y * 3) = 3 * nat \<lfloor>?y\<rfloor>"
    using fl by (simp add: nat_mult_distrib)
  fix n :: nat
  assume "3 * nat \<lfloor>?y\<rfloor> \<le> n"
  then have "3 * real (nat \<lfloor>?y\<rfloor>) \<le> real n"
    by linarith
  moreover have "real (nat \<lfloor>?y\<rfloor>) = real_of_int \<lfloor>?y\<rfloor>"
    using fl by simp
  moreover have "?y - 1 < real_of_int \<lfloor>?y\<rfloor>"
    by linarith
  moreover have "1 \<le> real_of_int \<lfloor>?y\<rfloor>"
    using fl by linarith
  ultimately have "?y < real n"
    by linarith
  then have "?q < real n"
    by simp
  then have "real_of_int (k + 2) * tb < real n * td"
    using pos_divide_less_eq [OF assms(2)] by blast
  moreover have "real_of_int (k + 1) * tb \<le> real_of_int (k + 2) * tb"
    using assms(3) by (simp add: mult_right_mono)
  ultimately show "real_of_int (k + 1) * tb - real n * td < 0"
    by linarith
qed

lemma A_single_k_sum:
  assumes "1 \<le> k" and "0 < td" and "0 < tb"
    and N: "3 * nat \<lfloor>max 1 (real_of_int (k + 2) * tb / td)\<rfloor> \<le> Suc N"
  shows "A_single_k k r0 td tb tau = Inr a \<longleftrightarrow>
     (\<exists>hv. (\<forall>n\<in>{1..N}. h (k + 1) n td tb tau = Inr (hv (k + 1) n) \<and>
                         h k n td tb tau = Inr (hv k n) \<and>
                         h (k - 1) n td tb tau = Inr (hv (k - 1) n)) \<and>
        a = r0 * tb * (\<Sum>n = 1..N. hv (k + 1) n - 2 * hv k n + hv (k - 1) n))"
proof -
  let ?M = "3 * nat \<lfloor>max 1 (real_of_int (k + 2) * tb / td)\<rfloor>"
  let ?t = "\<lambda>n. bindE (h (k + 1) n td tb tau) (\<lambda>h1.
                 bindE (h k n td tb tau) (\<lambda>h2.
                 bindE (h (k - 1) n td tb tau) (\<lambda>h3. Inr (h1 - 2 * h2 + h3))))"
  note bnd = A_single_k_bound [OF assms(1-3)]
  have zero: "h (k + 1) n td tb tau = Inr 0 \<and> h k n td tb tau = Inr 0 \<and>
      h (k - 1) n td tb tau = Inr 0" if "?M \<le> n" for n
  proof -
    have top: "real_of_int (k + 1) * tb - real n * td < 0"
      using that by (rule bnd(2))
    have "real_of_int k * tb \<le> real_of_int (k + 1) * tb"
      and "real_of_int (k - 1) * tb \<le> real_of_int (k + 1) * tb"
      using assms(3) by (simp_all add: mult_right_mono)
    with top have "real_of_int k * tb - real n * td < 0"
      and "real_of_int (k - 1) * tb - real n * td < 0"
      by linarith+
    with top show ?thesis
      by (simp add: h_outside_support)
  qed
  have t_iff: "?t n = Inr v \<longleftrightarrow>
      (\<exists>h1 h2 h3. h (k + 1) n td tb tau = Inr h1 \<and> h k n td tb tau = Inr h2 \<and>
         h (k - 1) n td tb tau = Inr h3 \<and> v = h1 - 2 * h2 + h3)" for n v
    by (auto simp: bindE_eq_Inr)
  have A_eq: "A_single_k k r0 td tb tau =
      bindE (accumulate ?t [1..<?M] 0) (\<lambda>s. Inr (r0 * tb * s))"
    using assms(1-3) bnd(1) by (simp add: A_single_k_def)
  show ?thesis
  proof
    assume "A_single_k k r0 td tb tau = Inr a"
    then obtain s where acc: "accumulate ?t [1..<?M] 0 = Inr s" and a: "a = r0 * tb * s"
      unfolding A_eq by (auto simp: bindE_eq_Inr)
    from acc obtain g where g: "\<forall>n\<in>set [1..<?M]. ?t n = Inr (g n)"
      and s: "s = sum_list (map g [1..<?M])"
      by (auto simp: accumulate_eq_Inr)
    let ?hv = "\<lambda>j n. projr (h j n td tb tau)"
    let ?F = "\<lambda>n. ?hv (k + 1) n - 2 * ?hv k n + ?hv (k - 1) n"
    have inside: "h (k + 1) n td tb tau = Inr (?hv (k + 1) n) \<and>
        h k n td tb tau = Inr (?hv k n) \<and> h (k - 1) n td tb tau = Inr (?hv (k - 1) n) \<and>
        g n = ?F n" if "n \<in> set [1..<?M]" for n
    proof -
      from g that have "?t n = Inr (g n)" by blast
      then show ?thesis
        unfolding t_iff by auto
    qed
    have "\<forall>n\<in>{1..N}. h (k + 1) n td tb tau = Inr (?hv (k + 1) n) \<and>
        h k n td tb tau = Inr (?hv k n) \<and> h (k - 1) n td tb tau = Inr (?hv (k - 1) n)"
    proof
      fix n assume "n \<in> {1..N}"
      show "h (k + 1) n td tb tau = Inr (?hv (k + 1) n) \<and>
        h k n td tb tau = Inr (?hv k n) \<and> h (k - 1) n td tb tau = Inr (?hv (k - 1) n)"
      proof (cases "n < ?M")
        case True
        with \<open>n \<in> {1..N}\<close> have "n \<in> set [1..<?M]" by simp
        then show ?thesis using inside by blast
      next
        case False
        then have "?M \<le> n" by simp
        then show ?thesis using zero by simp
      qed
    qed
    moreover have "(\<Sum>n = 1..N. ?F n) = sum_list (map ?F [1..<?M])"
      using N by (rule sum_zero_tail) (simp add: zero)
    moreover have "sum_list (map ?F [1..<?M]) = s"
      unfolding s using inside by (intro arg_cong [where f = sum_list] map_cong) auto
    ultimately show "\<exists>hv. (\<forall>n\<in>{1..N}. h (k + 1) n td tb tau = Inr (hv (k + 1) n) \<and>
          h k n td tb tau = Inr (hv k n) \<and> h (k - 1) n td tb tau = Inr (hv (k - 1) n)) \<and>
        a = r0 * tb * (\<Sum>n = 1..N. hv (k + 1) n - 2 * hv k n + hv (k - 1) n)"
      using a by (intro exI [of _ ?hv]) simp
  next
    assume "\<exists>hv. (\<forall>n\<in>{1..N}. h (k + 1) n td tb tau = Inr (hv (k + 1) n) \<and>
          h k n td tb tau = Inr (hv k n) \<and> h (k - 1) n td tb tau = Inr (hv (k - 1) n)) \<and>
        a = r0 * tb * (\<Sum>n = 1..N. hv (k + 1) n - 2 * hv k n + hv (k - 1) n)"
    then obtain hv where
      hv: "\<forall>n\<in>{1..N}. h (k + 1) n td tb tau = Inr (hv (k + 1) n) \<and>
          h k n td tb tau = Inr (hv k n) \<and> h (k - 1) n td tb tau = Inr (hv (k - 1) n)"
      and a: "a = r0 * tb * (\<Sum>n = 1..N. hv (k + 1) n - 2 * hv k n + hv (k - 1) n)"
      by blast
    let ?F = "\<lambda>n. hv (k + 1) n - 2 * hv k n + hv (k - 1) n"
    have "?F n = 0" if "?M \<le> n" and "n \<le> N" for n
    proof -
      have "1 \<le> ?M"
        by (simp add: le_floor_iff Suc_le_eq)
      with that have "n \<in> {1..N}" by simp
      with hv zero [OF that(1)] show ?thesis by simp
    qed
    with N have "(\<Sum>n = 1..N. ?F n) = sum_list (map ?F [1..<?M])"
      by (intro sum_zero_tail)
    moreover have "accumulate ?t [1..<?M] 0 = Inr (0 + sum_list (map ?F [1..<?M]))"
    proof (rule accumulate_Inr)
      fix n assume "n \<in> set [1..<?M]"
      with N have "n \<in> {1..N}" by simp
      with hv show "?t n = Inr (?F n)" by simp
    qed
    ultimately show "A_single_k k r0 td tb tau = Inr a"
      unfolding A_eq using a by simp
  qed
qed

subsection \<open>Two values of \<open>Gn\<close> and \<open>h\<close>\<close>

lemma Gn_one_one: "Gn 1 (Suc 0) = Inr (exp (- 1))"
  by (simp add: Gn_def Gn_loop.simps [of 1 "Suc 0"] e_m_x_x_over_factorial_def
      direct_formula_def getitem_INVERSE_FACTORIALS)

lemma h_at_one: "tb \<noteq> 0 \<Longrightarrow> real_of_int k * tb - td = tau \<Longrightarrow> 0 < tau \<Longrightarrow>
    h k (Suc 0) td tb tau = Inr (real_of_int k - (td + tau) / tb + tau / tb * exp (- 1))"
  by (simp add: h_def Gn_one_one)

subsection \<open>The series returns: short loops, and the early exit for small \<open>x\<close>\<close>

lemma TWOPI_pos: "0 < TWOPI"
  by (simp add: TWOPI_def)

lemma divide_le_self_real: "0 \<le> c \<Longrightarrow> 1 \<le> d \<Longrightarrow> c / d \<le> (c::real)"
  using mult_left_mono [of 1 d c] by (simp add: pos_divide_le_eq)

lemma sterling_factor_pos:
  assumes "0 < m"
  shows "\<exists>sf. sterling_factor m = Inr sf \<and> 0 < sf"
proof -
  have m: "1 \<le> real m"
    using assms by simp
  then have p3: "1 \<le> real m ^ 3" and p4: "1 \<le> real m ^ 4"
    by (simp_all add: one_le_power)
  have "139 / 51840 / real m ^ 3 \<le> 139 / 51840"
    using p3 by (intro divide_le_self_real) simp_all
  moreover have "571 / 2488320 / real m ^ 4 \<le> 571 / 2488320"
    using p4 by (intro divide_le_self_real) simp_all
  moreover have "0 \<le> 1 / 12 / real m" and "0 \<le> 1 / 288 / real m ^ 2"
    by simp_all
  ultimately have "0 < 1 + 1 / 12 / real m + 1 / 288 / real m ^ 2
      - 139 / 51840 / real m ^ 3 - 571 / 2488320 / real m ^ 4"
    by linarith
  then show ?thesis
    using assms by (simp add: sterling_factor_def STERLING_PARAMETERS_def)
qed

lemma e_m_x_x_over_factorial_pos:
  assumes "0 < x" and "m < 100"
  shows "\<exists>t. e_m_x_x_over_factorial x m = Inr t \<and> 0 < t"
proof (cases "direct_formula x m")
  case True
  then show ?thesis
    using assms by (simp add: e_m_x_x_over_factorial_def getitem_INVERSE_FACTORIALS)
next
  case False
  with assms have m: "0 < m"
    using direct_formula_zero_index [of x] by (cases "m = 0") auto
  then obtain sf where sf: "sterling_factor m = Inr sf" "0 < sf"
    using sterling_factor_pos by blast
  have root: "0 < sqrt (TWOPI * real m)"
    using m TWOPI_pos by simp
  then have "sqrt (TWOPI * real m) \<noteq> 0"
    by (rule less_imp_neq [THEN not_sym])
  then have a: "divide_py 1 (sqrt (TWOPI * real m)) = Inr (1 / sqrt (TWOPI * real m))"
    by (rule divide_py_nonzero)
  have "0 < 1 / sqrt (TWOPI * real m) * (x * exp (1 - x / real m) / real m) ^ m / sf"
    using root sf(2) assms(1) m by simp
  then show ?thesis
    using False assms m sf by (simp add: e_m_x_x_over_factorial_def a)
qed

lemma e_m_x_x_over_factorial_zero_index:
  "0 < x \<Longrightarrow> e_m_x_x_over_factorial x 0 = Inr (exp (- x))"
  by (simp add: e_m_x_x_over_factorial_def direct_formula_zero_index getitem_INVERSE_FACTORIALS)

lemma Gn_loop_returns_short:
  assumes "0 < x" and "n \<le> 100"
  shows "0 \<le> s \<Longrightarrow> \<exists>v. Gn_loop x n m s = Inr v"
proof (induction "n - m" arbitrary: m s)
  case 0
  then show ?case by (simp add: Gn_loop.simps)
next
  case (Suc d)
  then have mn: "m < n" by simp
  with assms(2) have "m < 100" by simp
  then obtain t where t: "e_m_x_x_over_factorial x m = Inr t" "0 < t"
    using e_m_x_x_over_factorial_pos [OF assms(1)] by blast
  let ?nv = "t * (real n - real m)"
  have nv: "0 < ?nv"
    using t mn by simp
  with Suc.prems have s': "0 < s + ?nv"
    by simp
  have "d = n - (m + 1)"
    using Suc.hyps(2) by simp
  then have "\<exists>v. Gn_loop x n (m + 1) (s + ?nv) = Inr v"
    using s' by (intro Suc.hyps(1)) simp_all
  then show ?case
    using mn t s' by (subst Gn_loop.simps) (auto simp: Let_def)
qed

lemma direct_formula_small:
  assumes "0 < x" and "x \<le> 10" and "m < 50"
  shows "direct_formula x m"
proof -
  have "log 10 x \<le> log 10 10"
    using assms by (simp del: log_eq_one)
  then have "log 10 x \<le> 1"
    by simp
  then have "real m * log 10 x \<le> real m * 1"
    by (intro mult_left_mono) simp_all
  also have "\<dots> < 50"
    using assms(3) by simp
  finally show ?thesis
    using assms(1) by (simp add: direct_formula_def)
qed

lemma log_inverse_power_of_ten: "log 10 (1 / 10 ^ k) = - real k"
  by (simp add: log_divide log_nat_power)

lemma negligible_small:
  assumes "0 < r" and "r < 1 / 10 ^ 15"
  shows "negligible r"
proof -
  have "log 10 r < log 10 (1 / 10 ^ 15)"
    using assms by simp
  also have "log 10 (1 / 10 ^ 15) = - real 15"
    by (rule log_inverse_power_of_ten)
  finally show ?thesis
    using assms(1) by (simp add: negligible_def PRECISION_def)
qed

lemma ratio_bounds:
  fixes nv s K :: real
  assumes "0 < nv" and "0 < s" and "0 < K" and "nv * K < s + nv"
  shows "0 < nv / (s + nv)" and "nv / (s + nv) < 1 / K"
proof -
  have pos: "0 < s + nv"
    using assms(1,2) by linarith
  with assms(1) show "0 < nv / (s + nv)"
    by (rule divide_pos_pos)
  have "nv < (s + nv) / K"
    using assms(3,4) by (simp add: pos_less_divide_eq)
  then show "nv / (s + nv) < 1 / K"
    using pos by (simp add: pos_divide_less_eq)
qed

lemma early_exit_ratio:
  assumes "0 < x" and "x \<le> 2" and "25 < n" and "exp (- x) * real n \<le> s"
  shows "0 < exp (- x) * x ^ 25 * (1 / fact 25) * (real n - real 25)
           / (s + exp (- x) * x ^ 25 * (1 / fact 25) * (real n - real 25))"
    and "exp (- x) * x ^ 25 * (1 / fact 25) * (real n - real 25)
           / (s + exp (- x) * x ^ 25 * (1 / fact 25) * (real n - real 25)) < 1 / 10 ^ 15"
proof -
  define c where "c = x ^ 25 * (1 / fact 25) * (10::real) ^ 15"
  define d where "d = real n - real 25"
  define nv where "nv = exp (- x) * x ^ 25 * (1 / fact 25) * (real n - real 25)"
  have n: "25 < real n"
    using assms(3) by simp
  have nv: "0 < nv"
    unfolding nv_def using assms(1) n by simp
  have s: "0 < s"
  proof -
    have "0 < exp (- x) * real n" using n by simp
    with assms(4) show ?thesis by linarith
  qed
  have "x ^ 25 \<le> 2 ^ 25"
    using assms(1,2) by (intro power_mono) simp_all
  then have "x ^ 25 * 10 ^ 15 \<le> 2 ^ 25 * 10 ^ 15"
    by (intro mult_right_mono) simp_all
  moreover have "(2::real) ^ 25 * 10 ^ 15 \<le> fact 25"
    by (simp add: fact_numeral)
  ultimately have "x ^ 25 * 10 ^ 15 \<le> fact 25"
    by (rule order_trans)
  then have c: "c \<le> 1"
    unfolding c_def by (simp add: field_simps)
  have c0: "0 \<le> c"
    unfolding c_def using assms(1) by simp
  have d: "0 \<le> d" "d \<le> real n"
    unfolding d_def using n by simp_all
  have "c * d \<le> 1 * real n"
    using c c0 d by (intro mult_mono) simp_all
  then have "exp (- x) * (c * d) \<le> exp (- x) * (1 * real n)"
    by (intro mult_left_mono) simp_all
  moreover have "nv * 10 ^ 15 = exp (- x) * (c * d)"
    unfolding nv_def c_def d_def by (simp add: mult_ac)
  ultimately have "nv * 10 ^ 15 \<le> exp (- x) * real n"
    by simp
  with assms(4) nv have less: "nv * 10 ^ 15 < s + nv"
    by linarith
  have K: "(0::real) < 10 ^ 15"
    by simp
  show "0 < exp (- x) * x ^ 25 * (1 / fact 25) * (real n - real 25)
           / (s + exp (- x) * x ^ 25 * (1 / fact 25) * (real n - real 25))"
    using ratio_bounds(1) [OF nv s K less] unfolding nv_def .
  show "exp (- x) * x ^ 25 * (1 / fact 25) * (real n - real 25)
           / (s + exp (- x) * x ^ 25 * (1 / fact 25) * (real n - real 25)) < 1 / 10 ^ 15"
    using ratio_bounds(2) [OF nv s K less] unfolding nv_def .
qed

lemma Gn_loop_step:
  assumes "m < n" and "e_m_x_x_over_factorial x m = Inr t"
  shows "Gn_loop x n m s =
     (if x \<noteq> 0 \<and> real m > 2 * x then
        bindE (divide_py (t * (real n - real m)) (s + t * (real n - real m))) (\<lambda>r.
          if negligible r then Inr (s + t * (real n - real m))
          else Gn_loop x n (m + 1) (s + t * (real n - real m)))
      else Gn_loop x n (m + 1) (s + t * (real n - real m)))"
  using assms by (subst Gn_loop.simps) (simp add: Let_def)

lemma Gn_loop_exit:
  assumes "m < n" and "e_m_x_x_over_factorial x m = Inr t"
    and "x \<noteq> 0" and "real m > 2 * x"
    and "s + t * (real n - real m) \<noteq> 0"
    and "negligible (t * (real n - real m) / (s + t * (real n - real m)))"
  shows "Gn_loop x n m s = Inr (s + t * (real n - real m))"
  using assms(3-6) by (simp add: Gn_loop_step [OF assms(1,2)])

lemma Gn_loop_returns_small_x:
  assumes "0 < x" and "x \<le> 2"
  shows "m \<le> 25 \<Longrightarrow> 0 \<le> s \<Longrightarrow> (0 < m \<Longrightarrow> exp (- x) * real n \<le> s) \<Longrightarrow>
    \<exists>v. Gn_loop x n m s = Inr v"
proof (induction "25 - m" arbitrary: m s)
  case 0
  then have m: "m = 25" by simp
  show ?case
  proof (cases "m < n")
    case False
    then show ?thesis by (simp add: Gn_loop.simps)
  next
    case True
    let ?t = "exp (- x) * x ^ 25 * (1 / fact 25)"
    from True m have n: "25 < n" by simp
    have s: "exp (- x) * real n \<le> s"
      using "0.prems"(3) m by simp
    have "direct_formula x 25"
      using assms by (intro direct_formula_small) simp_all
    then have t: "e_m_x_x_over_factorial x 25 = Inr ?t"
      using assms(1) by (simp add: e_m_x_x_over_factorial_def getitem_INVERSE_FACTORIALS)
    note r = early_exit_ratio [OF assms n s]
    have "Gn_loop x n 25 s = Inr (s + ?t * (real n - real 25))"
    proof (rule Gn_loop_exit [OF n t])
      show "x \<noteq> 0" using assms(1) by simp
      show "2 * x < real 25" using assms(2) by simp
      show "s + ?t * (real n - real 25) \<noteq> 0"
        using r(1) by auto
      show "negligible (?t * (real n - real 25) / (s + ?t * (real n - real 25)))"
        using r by (rule negligible_small)
    qed
    then show ?thesis
      unfolding m by blast
  qed
next
  case (Suc d)
  then have m: "m < 25" by simp
  show ?case
  proof (cases "m < n")
    case False
    then show ?thesis by (simp add: Gn_loop.simps)
  next
    case True
    from m obtain t where t: "e_m_x_x_over_factorial x m = Inr t" "0 < t"
      using e_m_x_x_over_factorial_pos [OF assms(1), of m] by auto
    let ?s' = "s + t * (real n - real m)"
    have nv: "0 < t * (real n - real m)"
      using t True by simp
    with Suc.prems(2) have s': "0 < ?s'"
      by linarith
    have inv: "exp (- x) * real n \<le> ?s'"
    proof (cases "m = 0")
      case True
      with t(1) assms(1) have "t = exp (- x)"
        by (simp add: e_m_x_x_over_factorial_zero_index)
      with True Suc.prems(2) show ?thesis by simp
    next
      case False
      with Suc.prems(3) nv show ?thesis by simp
    qed
    have "d = 25 - (m + 1)"
      using Suc.hyps(2) by simp
    then have "\<exists>v. Gn_loop x n (m + 1) ?s' = Inr v"
      using m s' inv by (intro Suc.hyps(1)) simp_all
    then show ?thesis
      using s' by (auto simp: Gn_loop_step [OF True t(1)])
  qed
qed

lemma Gn_returns:
  assumes "0 \<le> x" and "n \<le> 100 \<or> (0 < x \<and> x \<le> 2)"
  shows "\<exists>v. Gn x n = Inr v"
proof (cases "x = 0")
  case True
  with assms(2) show ?thesis
    by (simp add: Gn_at_zero)
next
  case False
  with assms(1) have x: "0 < x" by simp
  from assms(2) show ?thesis
  proof
    assume "n \<le> 100"
    with x show ?thesis
      unfolding Gn_def by (intro Gn_loop_returns_short) simp_all
  next
    assume "0 < x \<and> x \<le> 2"
    then show ?thesis
      unfolding Gn_def by (intro Gn_loop_returns_small_x) simp_all
  qed
qed

lemma h_returns:
  assumes "tb \<noteq> 0" and "0 < tau"
    and "n \<le> 100 \<or> (0 < real_of_int k * tb - real n * td \<and>
           real_of_int k * tb - real n * td \<le> 2 * tau)"
  shows "\<exists>v. h k n td tb tau = Inr v"
proof (cases "real_of_int k * tb - real n * td < 0")
  case True
  then show ?thesis by (simp add: h_outside_support)
next
  case False
  let ?x = "(real_of_int k * tb - real n * td) / tau"
  have "0 \<le> ?x"
    using False assms(2) by simp
  moreover have "n \<le> 100 \<or> (0 < ?x \<and> ?x \<le> 2)"
    using assms(2,3) by (auto simp: pos_divide_le_eq)
  ultimately obtain g where "Gn ?x n = Inr g"
    using Gn_returns by blast
  then show ?thesis
    using False assms(1,2) by (simp add: h_def)
qed

subsection \<open>When a loop raises\<close>

lemma accumulate_raises:
  "(\<And>j. j \<in> set ys \<Longrightarrow> \<exists>v. f j = Inr v) \<Longrightarrow> f i = Inl e \<Longrightarrow>
     accumulate f (ys @ i # zs) s = Inl e"
proof (induction ys arbitrary: s)
  case Nil
  then show ?case by simp
next
  case (Cons y ys)
  from Cons.prems(1) [of y] obtain v where "f y = Inr v" by auto
  moreover have "accumulate f (ys @ i # zs) (s + v) = Inl e"
    using Cons.prems by (intro Cons.IH) auto
  ultimately show ?case by simp
qed

lemma upt_split_at: "a \<le> i \<Longrightarrow> i < b \<Longrightarrow> [a..<b] = [a..<i] @ i # [Suc i..<b]"
  using upt_add_eq_append [of a i "b - i"] upt_conv_Cons [of i b] by simp

lemma h_raises_at_boundary:
  assumes "real_of_int k * tb - real n * td = 0" and "tb \<noteq> 0" and "tau \<noteq> 0" and "100 < n"
  shows "h k n td tb tau = Inl IndexError"
  using assms by (simp add: h_def Gn_at_zero_overflow)

lemma A_single_k_raises:
  assumes "k \<noteq> 0" and "td \<noteq> 0"
    and "1 \<le> i" and "i < nat (py_int (max 1 (real_of_int (k + 2) * tb / td)) * 3)"
    and before: "\<And>n. 1 \<le> n \<Longrightarrow> n < i \<Longrightarrow>
       (\<exists>v. h (k + 1) n td tb tau = Inr v) \<and> (\<exists>v. h k n td tb tau = Inr v) \<and>
       (\<exists>v. h (k - 1) n td tb tau = Inr v)"
    and at: "h (k + 1) i td tb tau = Inl e"
  shows "A_single_k k r0 td tb tau = Inl e"
proof -
  let ?M = "nat (py_int (max 1 (real_of_int (k + 2) * tb / td)) * 3)"
  let ?t = "\<lambda>n. bindE (h (k + 1) n td tb tau) (\<lambda>h1.
                 bindE (h k n td tb tau) (\<lambda>h2.
                 bindE (h (k - 1) n td tb tau) (\<lambda>h3. Inr (h1 - 2 * h2 + h3))))"
  have "\<exists>v. ?t n = Inr v" if "n \<in> set [1..<i]" for n
    using before [of n] that by auto
  moreover have "?t i = Inl e"
    using at by simp
  ultimately have "accumulate ?t ([1..<i] @ i # [Suc i..<?M]) 0 = Inl e"
    by (rule accumulate_raises)
  then have "accumulate ?t [1..<?M] 0 = Inl e"
    using upt_split_at [OF assms(3,4)] by simp
  then show ?thesis
    using assms(1,2) by (simp add: A_single_k_def)
qed

lemma inner_loop_pds_zhang_raises:
  assumes "2 \<le> N" and "2 \<le> limit_k"
    and "safe_B_single_k 1 r0 td tb tau limit_k = Inl e"
  shows "inner_loop_pds_zhang N tau r0 td tb limit_k = Inl e"
proof -
  have js: "[0..N div 2 - 1] = 0 # [0 + 1..N div 2 - 1]"
    using assms(1) by (intro upto_rec1) simp
  have ks: "[1..min N limit_k - 1] = 1 # [1 + 1..min N limit_k - 1]"
    using assms(1,2) by (intro upto_rec1) simp
  have "\<not> N div 2 < 0" and "real_of_int N \<noteq> 0"
    using assms(1) by simp_all
  then show ?thesis
    unfolding inner_loop_pds_zhang_def P_at_def eq8_new_val_def js ks using assms(3) by simp
qed

lemma A_single_k_raises_example:
  "A_single_k 1 r0 (1 / 10000) (1 / 100) (1 / 100) = Inl IndexError"
proof (rule A_single_k_raises [where i = 200])
  show "200 < nat (py_int (max 1 (real_of_int (1 + 2) * (1 / 100) / (1 / 10000))) * 3)"
    by (simp add: py_int_def)
  show "h (1 + 1) 200 (1 / 10000) (1 / 100) (1 / 100) = Inl IndexError"
    by (rule h_raises_at_boundary) simp_all
next
  fix n :: nat
  assume n: "1 \<le> n" "n < 200"
  have "\<exists>v. h (1 + 1) n (1 / 10000) (1 / 100) (1 / 100) = Inr v"
    using n by (intro h_returns) (simp_all add: field_simps)
  moreover have "\<exists>v. h 1 n (1 / 10000) (1 / 100) (1 / 100) = Inr v"
  proof (cases "n \<le> 100")
    case True
    then show ?thesis by (intro h_returns) simp_all
  next
    case False
    then show ?thesis by (simp add: h_outside_support field_simps)
  qed
  moreover have "\<exists>v. h (1 - 1) n (1 / 10000) (1 / 100) (1 / 100) = Inr v"
    using n by (simp add: h_outside_support)
  ultimately show "(\<exists>v. h (1 + 1) n (1 / 10000) (1 / 100) (1 / 100) = Inr v) \<and>
      (\<exists>v. h 1 n (1 / 10000) (1 / 100) (1 / 100) = Inr v) \<and>
      (\<exists>v. h (1 - 1) n (1 / 10000) (1 / 100) (1 / 100) = Inr v)"
    by blast
qed simp_all

subsection \<open>The terms \<open>A\<close> and \<open>B\<close> return\<close>

lemma accumulate_returns:
  assumes "\<And>i. i \<in> set xs \<Longrightarrow> \<exists>v. f i = Inr v"
  shows "\<exists>v. accumulate f xs s = Inr v"
proof -
  have "f i = Inr (projr (f i))" if "i \<in> set xs" for i
    using assms [OF that] by auto
  then have "accumulate f xs s = Inr (s + sum_list (map (\<lambda>i. projr (f i)) xs))"
    by (rule accumulate_Inr)
  then show ?thesis ..
qed

lemma fill_returns:
  assumes "\<And>i. i \<in> set xs \<Longrightarrow> \<exists>v. f i = Inr v"
  shows "\<exists>vs. fill f xs = Inr vs"
proof -
  have "f (xs ! i) = Inr (projr (f (xs ! i)))" if "i < length xs" for i
    using assms [OF nth_mem [OF that]] by auto
  then have "fill f xs = Inr (map (\<lambda>i. projr (f i)) xs)"
    unfolding fill_eq_Inr by simp
  then show ?thesis ..
qed

lemma floor_max_le:
  fixes q :: real
  assumes "q < real_of_int b" and "1 < b"
  shows "\<lfloor>max 1 q\<rfloor> < b" and "1 \<le> \<lfloor>max 1 q\<rfloor>"
proof -
  have "max 1 q < real_of_int b"
    using assms by (simp add: max_def)
  then show "\<lfloor>max 1 q\<rfloor> < b"
    by (simp add: floor_less_iff)
  show "1 \<le> \<lfloor>max 1 q\<rfloor>"
    by (simp add: le_floor_iff)
qed

lemma A0_returns:
  assumes "0 < td" and "0 < tb" and "0 < tau" and "tb < 101 * td"
  shows "\<exists>a. A0 r0 td tb tau = Inr a"
proof -
  let ?N = "nat (py_int (max 1 (tb / td + 1)))"
  have "tb / td + 1 < real_of_int 102"
    using assms(1,4) by (simp add: pos_divide_less_eq)
  then have "\<lfloor>max 1 (tb / td + 1)\<rfloor> < 102"
    by (rule floor_max_le) simp
  moreover have "py_int (max 1 (tb / td + 1)) = \<lfloor>max 1 (tb / td + 1)\<rfloor>"
    by (rule py_int_floor) simp
  ultimately have N: "?N \<le> 101"
    by linarith
  have "\<exists>v. h 1 n td tb tau = Inr v" if "n \<in> set [1..<?N]" for n
  proof -
    from that N have "n \<le> 100" by simp
    then show ?thesis
      using assms(2,3) by (intro h_returns) simp_all
  qed
  then have "\<exists>s. accumulate (\<lambda>n. h 1 n td tb tau) [1..<?N] 0 = Inr s"
    by (rule accumulate_returns)
  then obtain s where "accumulate (\<lambda>n. h 1 n td tb tau) [1..<?N] 0 = Inr s" ..
  then show ?thesis
    using assms(1) by (simp add: A0_def)
qed

lemma A_single_k_returns:
  assumes "0 < td" and "0 < tb" and "0 < tau" and "real_of_int (k + 2) * tb < 34 * td"
  shows "\<exists>a. A_single_k k r0 td tb tau = Inr a"
proof (cases "k = 0")
  case True
  have "tb < 101 * td"
    using assms(1,4) True by simp
  with assms(1-3) True show ?thesis
    by (simp add: A_single_k_def A0_returns)
next
  case False
  let ?q = "real_of_int (k + 2) * tb / td"
  let ?M = "nat (py_int (max 1 ?q) * 3)"
  let ?t = "\<lambda>n. bindE (h (k + 1) n td tb tau) (\<lambda>h1.
                 bindE (h k n td tb tau) (\<lambda>h2.
                 bindE (h (k - 1) n td tb tau) (\<lambda>h3. Inr (h1 - 2 * h2 + h3))))"
  have "?q < real_of_int 34"
    using assms(1,4) by (simp add: pos_divide_less_eq)
  then have "\<lfloor>max 1 ?q\<rfloor> < 34"
    by (rule floor_max_le) simp
  moreover have "py_int (max 1 ?q) = \<lfloor>max 1 ?q\<rfloor>"
    by (rule py_int_floor) simp
  ultimately have M: "?M \<le> 101"
    by linarith
  have "\<exists>v. ?t n = Inr v" if "n \<in> set [1..<?M]" for n
  proof -
    from that M have n: "n \<le> 100" by simp
    have "\<exists>v. h j n td tb tau = Inr v" for j
      using assms(2,3) n by (intro h_returns) simp_all
    then obtain a b c where "h (k + 1) n td tb tau = Inr a" "h k n td tb tau = Inr b"
      "h (k - 1) n td tb tau = Inr c"
      by metis
    then show ?thesis by simp
  qed
  then have "\<exists>s. accumulate ?t [1..<?M] 0 = Inr s"
    by (rule accumulate_returns)
  then obtain s where "accumulate ?t [1..<?M] 0 = Inr s" ..
  then show ?thesis
    using False assms(1) by (simp add: A_single_k_def)
qed

lemma safe_B_single_k_returns:
  assumes "0 < td" and "0 < tb" and "0 < tau" and "r0 \<noteq> 0"
    and "real_of_int (k + 2) * tb < 34 * td"
  shows "\<exists>b. safe_B_single_k k r0 td tb tau limit_k = Inr b"
proof -
  obtain a where "A_single_k k r0 td tb tau = Inr a"
    using A_single_k_returns [OF assms(1-3,5)] by blast
  moreover have "A_single_k 0 r0 td tb tau = Inr a" if "k = 0"
    using calculation that by simp
  ultimately show ?thesis
    using assms(2,4) by (simp add: safe_B_single_k_def B_raw_def)
qed

subsection \<open>The results of the inner loop and of \<open>pds_model_zhang\<close>\<close>

lemma eq8_new_val_eq_Inr:
  "eq8_new_val N tau r0 td tb limit_k j k = Inr v \<longleftrightarrow>
     N \<noteq> 0 \<and> (\<exists>b. safe_B_single_k k r0 td tb tau limit_k = Inr b \<and>
        v = real_of_int (N - k) / real_of_int N * b *
            cos (2 * pi * real_of_int j * real_of_int k / real_of_int N))"
  by (cases "N = 0") (auto simp: eq8_new_val_def bindE_eq_Inr)

lemma sum_list_upto: "sum_list (map f [a..b]) = (\<Sum>k = a..b. f k)" for f :: "int \<Rightarrow> real"
  by (simp add: sum_list_distinct_conv_sum_set)

lemma P_at_eq_Inr:
  "P_at N tau r0 td tb limit_k j = Inr p \<longleftrightarrow>
     (\<exists>B. safe_B_single_k 0 r0 td tb tau default_limit_k = Inr (B 0) \<and>
        (\<forall>k\<in>{1..min N limit_k - 1}. safe_B_single_k k r0 td tb tau limit_k = Inr (B k)) \<and>
        (2 \<le> min N limit_k \<longrightarrow> N \<noteq> 0) \<and>
        p = B 0 + (\<Sum>k = 1..min N limit_k - 1.
              real_of_int (N - k) / real_of_int N * B k *
              cos (2 * pi * real_of_int j * real_of_int k / real_of_int N)))"
  (is "?L \<longleftrightarrow> ?R")
proof
  let ?ks = "[1..min N limit_k - 1]"
  let ?w = "\<lambda>k b. real_of_int (N - k) / real_of_int N * b *
      cos (2 * pi * real_of_int j * real_of_int k / real_of_int N)"
  assume ?L
  then obtain s b0 where acc: "accumulate (eq8_new_val N tau r0 td tb limit_k j) ?ks 0 = Inr s"
    and b0: "safe_B_single_k 0 r0 td tb tau default_limit_k = Inr b0" and p: "p = b0 + s"
    by (auto simp: P_at_def bindE_eq_Inr)
  from acc obtain g where g: "\<forall>k\<in>set ?ks. eq8_new_val N tau r0 td tb limit_k j k = Inr (g k)"
    and s: "s = sum_list (map g ?ks)"
    by (auto simp: accumulate_eq_Inr)
  let ?B = "\<lambda>k. if k = 0 then b0 else projr (safe_B_single_k k r0 td tb tau limit_k)"
  have each: "N \<noteq> 0 \<and> safe_B_single_k k r0 td tb tau limit_k = Inr (?B k) \<and> g k = ?w k (?B k)"
    if "k \<in> set ?ks" for k
  proof -
    from that have "k \<noteq> 0" by simp
    moreover from g that have "eq8_new_val N tau r0 td tb limit_k j k = Inr (g k)" by blast
    ultimately show ?thesis
      by (auto simp: eq8_new_val_eq_Inr)
  qed
  have "s = (\<Sum>k = 1..min N limit_k - 1. ?w k (?B k))"
    unfolding s sum_list_upto by (rule sum.cong) (use each in auto)
  moreover have "2 \<le> min N limit_k \<longrightarrow> N \<noteq> 0"
    using each [of 1] by auto
  moreover have "\<forall>k\<in>{1..min N limit_k - 1}. safe_B_single_k k r0 td tb tau limit_k = Inr (?B k)"
    using each by simp
  moreover have "safe_B_single_k 0 r0 td tb tau default_limit_k = Inr (?B 0)"
    using b0 by simp
  moreover have "p = ?B 0 + s"
    using p by simp
  ultimately show ?R
    by (intro exI [of _ ?B]) simp
next
  let ?ks = "[1..min N limit_k - 1]"
  let ?w = "\<lambda>k b. real_of_int (N - k) / real_of_int N * b *
      cos (2 * pi * real_of_int j * real_of_int k / real_of_int N)"
  assume ?R
  then obtain B where b0: "safe_B_single_k 0 r0 td tb tau default_limit_k = Inr (B 0)"
    and B: "\<forall>k\<in>{1..min N limit_k - 1}. safe_B_single_k k r0 td tb tau limit_k = Inr (B k)"
    and N: "2 \<le> min N limit_k \<longrightarrow> N \<noteq> 0"
    and p: "p = B 0 + (\<Sum>k = 1..min N limit_k - 1. ?w k (B k))"
    by blast
  have "eq8_new_val N tau r0 td tb limit_k j k = Inr (?w k (B k))" if "k \<in> set ?ks" for k
    using that B N by (auto simp: eq8_new_val_eq_Inr)
  then have "accumulate (eq8_new_val N tau r0 td tb limit_k j) ?ks 0 =
      Inr (0 + sum_list (map (\<lambda>k. ?w k (B k)) ?ks))"
    by (rule accumulate_Inr)
  then show ?L
    using b0 p by (simp add: P_at_def sum_list_upto)
qed

lemma inner_loop_pds_zhang_eq_Inr:
  "inner_loop_pds_zhang N tau r0 td tb limit_k = Inr P \<longleftrightarrow>
     0 \<le> N div 2 \<and> length P = nat (N div 2) \<and>
     (\<forall>i<nat (N div 2). P_at N tau r0 td tb limit_k (int i) = Inr (P ! i))"
proof (cases "N div 2 < 0")
  case True
  then show ?thesis by (simp add: inner_loop_pds_zhang_def)
next
  case False
  then have len: "length [0..N div 2 - 1] = nat (N div 2)"
    by simp
  have "[0..N div 2 - 1] ! i = int i" if "i < nat (N div 2)" for i
    using that by (simp add: nth_upto)
  with False len show ?thesis
    by (simp add: inner_loop_pds_zhang_def fill_eq_Inr)
qed

lemma arange_from_zero:
  assumes "0 < len" and "maxf \<noteq> 0"
  shows "arange 0 maxf (maxf / real len) =
           Inr (map (\<lambda>i. 0 + real i * (maxf / real len)) [0..<len])"
proof -
  have "(maxf - 0) / (maxf / real len) = real len"
    using assms by simp
  then have "nat \<lceil>(maxf - 0) / (maxf / real len)\<rceil> = len"
    by simp
  moreover have "maxf / real len \<noteq> 0"
    using assms by simp
  ultimately show ?thesis
    unfolding arange_def by simp
qed

lemma pds_model_zhang_eq_Inr:
  "pds_model_zhang N rate td tb limit_k = Inr out \<longleftrightarrow>
     rate \<noteq> 0 \<and> tb \<noteq> 0 \<and> (100 * td < tb \<longrightarrow> td \<noteq> 0) \<and>
     (\<exists>r0 P. r_det td rate = Inr r0 \<and>
        inner_loop_pds_zhang N (1 / rate) r0 td tb limit_k = Inr P \<and> P \<noteq> [] \<and>
        out = \<lparr>freqs = map (\<lambda>i. 0 + real i * (0.5 / tb / real (length P))) [0..<length P],
               power = P, warned = (100 * td < tb)\<rparr>)"
  (is "?L \<longleftrightarrow> ?R")
proof
  assume ?L
  then obtain tau r0 P w maxf df fs where
    tau: "divide_py 1 rate = Inr tau" and r0: "r_det td rate = Inr r0"
    and P: "inner_loop_pds_zhang N tau r0 td tb limit_k = Inr P"
    and w: "(if tb > 100 * td then bindE (divide_py tb td) (\<lambda>q. Inr True) else Inr False) = Inr w"
    and maxf: "divide_py 0.5 tb = Inr maxf" and df: "divide_py maxf (real (length P)) = Inr df"
    and fs: "arange 0 maxf df = Inr fs" and out: "out = \<lparr>freqs = fs, power = P, warned = w\<rparr>"
    unfolding pds_model_zhang_def bindE_eq_Inr by blast
  from tau have rate: "rate \<noteq> 0" "tau = 1 / rate"
    by (auto simp: divide_py_def split: if_splits)
  from maxf have tb: "tb \<noteq> 0" "maxf = 0.5 / tb"
    by (auto simp: divide_py_def split: if_splits)
  from df have len: "P \<noteq> []" "df = maxf / real (length P)"
    by (auto simp: divide_py_def split: if_splits)
  from w have warn: "100 * td < tb \<longrightarrow> td \<noteq> 0" "w = (100 * td < tb)"
    by (auto simp: divide_py_def split: if_splits)
  have "fs = map (\<lambda>i. 0 + real i * (0.5 / tb / real (length P))) [0..<length P]"
    using fs len tb arange_from_zero [of "length P" maxf] by simp
  with rate tb len warn r0 P out show ?R
    by blast
next
  assume ?R
  then obtain r0 P where rate: "rate \<noteq> 0" and tb: "tb \<noteq> 0"
    and warn: "100 * td < tb \<longrightarrow> td \<noteq> 0" and r0: "r_det td rate = Inr r0"
    and P: "inner_loop_pds_zhang N (1 / rate) r0 td tb limit_k = Inr P" and len: "P \<noteq> []"
    and out: "out = \<lparr>freqs = map (\<lambda>i. 0 + real i * (0.5 / tb / real (length P))) [0..<length P],
               power = P, warned = (100 * td < tb)\<rparr>"
    by blast
  have "arange 0 (0.5 / tb) (0.5 / tb / real (length P)) =
      Inr (map (\<lambda>i. 0 + real i * (0.5 / tb / real (length P))) [0..<length P])"
    using len tb by (intro arange_from_zero) simp_all
  then show ?L
    unfolding pds_model_zhang_def using rate tb warn r0 P len out by simp
qed

subsection \<open>When \<open>pds_model_zhang\<close> returns and when it raises\<close>

lemma safe_B_single_k_zero_returns:
  assumes "0 < td" and "0 < tb" and "0 < tau" and "r0 \<noteq> 0" and "tb < 101 * td"
  shows "\<exists>b. safe_B_single_k 0 r0 td tb tau limit_k = Inr b"
proof -
  obtain a where "A0 r0 td tb tau = Inr a"
    using A0_returns [OF assms(1-3,5)] by blast
  then show ?thesis
    using assms(2,4) by (simp add: safe_B_single_k_def B_raw_def A_single_k_def)
qed

lemma r_det_pos:
  assumes "0 < rate" and "0 < td"
  shows "r_det td rate = Inr (1 / (1 / rate + td))" and "0 < 1 / (1 / rate + td)"
proof -
  have "0 < 1 / rate + td"
    using assms by (simp add: add_pos_pos)
  then show "0 < 1 / (1 / rate + td)"
    by simp
  then show "r_det td rate = Inr (1 / (1 / rate + td))"
    using assms by (simp add: r_det_def)
qed

lemma pds_model_zhang_returns:
  assumes "2 \<le> N" and "0 < rate" and "0 < td" and "0 < tb"
    and "tb < 101 * td" and "real_of_int (min N limit_k + 1) * tb < 34 * td"
  shows "\<exists>out. pds_model_zhang N rate td tb limit_k = Inr out \<and>
           length (freqs out) = nat (N div 2) \<and> length (power out) = nat (N div 2)"
proof -
  let ?tau = "1 / rate" and ?r0 = "1 / (1 / rate + td)"
  have tau: "0 < ?tau"
    using assms(2) by simp
  note r0 = r_det_pos [OF assms(2,3)]
  have r0_nz: "?r0 \<noteq> 0"
    using r0(2) by simp
  have lag: "\<exists>b. safe_B_single_k k ?r0 td tb ?tau limit_k = Inr b"
    if "k \<in> {1..min N limit_k - 1}" for k
  proof -
    from that have "k + 2 \<le> min N limit_k + 1"
      by simp
    then have "real_of_int (k + 2) \<le> real_of_int (min N limit_k + 1)"
      by (rule of_int_le_iff [THEN iffD2])
    then have "real_of_int (k + 2) * tb \<le> real_of_int (min N limit_k + 1) * tb"
      using assms(4) by (intro mult_right_mono) simp_all
    with assms(6) have "real_of_int (k + 2) * tb < 34 * td"
      by linarith
    with assms(3,4) tau r0_nz show ?thesis
      by (intro safe_B_single_k_returns)
  qed
  obtain b0 where b0: "safe_B_single_k 0 ?r0 td tb ?tau default_limit_k = Inr b0"
    using safe_B_single_k_zero_returns [OF assms(3,4) tau r0_nz assms(5)] by blast
  let ?B = "\<lambda>k. if k = 0 then b0 else projr (safe_B_single_k k ?r0 td tb ?tau limit_k)"
  have bin: "\<exists>p. P_at N ?tau ?r0 td tb limit_k j = Inr p" for j
  proof -
    have "safe_B_single_k 0 ?r0 td tb ?tau default_limit_k = Inr (?B 0)"
      using b0 by simp
    moreover have "\<forall>k\<in>{1..min N limit_k - 1}.
        safe_B_single_k k ?r0 td tb ?tau limit_k = Inr (?B k)"
    proof
      fix k assume k: "k \<in> {1..min N limit_k - 1}"
      from lag [OF k] obtain b where "safe_B_single_k k ?r0 td tb ?tau limit_k = Inr b" ..
      with k show "safe_B_single_k k ?r0 td tb ?tau limit_k = Inr (?B k)"
        by simp
    qed
    moreover have "N \<noteq> 0"
      using assms(1) by simp
    ultimately have "P_at N ?tau ?r0 td tb limit_k j =
        Inr (?B 0 + (\<Sum>k = 1..min N limit_k - 1.
              real_of_int (N - k) / real_of_int N * ?B k *
              cos (2 * pi * real_of_int j * real_of_int k / real_of_int N)))"
      unfolding P_at_eq_Inr by (intro exI [of _ ?B]) simp
    then show ?thesis ..
  qed
  have half: "0 \<le> N div 2" "0 < nat (N div 2)"
    using assms(1) by simp_all
  have "\<exists>P. fill (P_at N ?tau ?r0 td tb limit_k) [0..N div 2 - 1] = Inr P"
    using bin by (intro fill_returns) simp
  then obtain P where P: "inner_loop_pds_zhang N ?tau ?r0 td tb limit_k = Inr P"
    using half(1) by (auto simp: inner_loop_pds_zhang_def)
  then have len: "length P = nat (N div 2)"
    by (simp add: inner_loop_pds_zhang_eq_Inr)
  with half(2) have nonempty: "P \<noteq> []"
    by auto
  let ?out = "\<lparr>freqs = map (\<lambda>i. 0 + real i * (0.5 / tb / real (length P))) [0..<length P],
               power = P, warned = (100 * td < tb)\<rparr>"
  have "pds_model_zhang N rate td tb limit_k = Inr ?out"
    unfolding pds_model_zhang_eq_Inr using assms(2-4) r0(1) P nonempty by auto
  moreover have "length (freqs ?out) = nat (N div 2)" "length (power ?out) = nat (N div 2)"
    using len by simp_all
  ultimately show ?thesis
    by blast
qed

lemma isl_iff_not_Inr: "isl r \<longleftrightarrow> (\<forall>v. r \<noteq> Inr v)"
  by (cases r) simp_all

lemma zero_argument_raises:
  assumes "N \<le> 1 \<or> rate = 0 \<or> td = 0 \<or> tb = 0"
  shows "isl (pds_model_zhang N rate td tb limit_k)"
  unfolding isl_iff_not_Inr
proof (intro allI notI)
  fix out
  assume "pds_model_zhang N rate td tb limit_k = Inr out"
  then obtain r0 P where rate: "rate \<noteq> 0" and tb: "tb \<noteq> 0"
    and P: "inner_loop_pds_zhang N (1 / rate) r0 td tb limit_k = Inr P" and len: "P \<noteq> []"
    unfolding pds_model_zhang_eq_Inr by blast
  from P have length: "length P = nat (N div 2)"
    and bins: "\<forall>i<nat (N div 2). P_at N (1 / rate) r0 td tb limit_k (int i) = Inr (P ! i)"
    by (simp_all add: inner_loop_pds_zhang_eq_Inr)
  from length len have first: "0 < nat (N div 2)"
    by (cases P) simp_all
  then have N: "2 \<le> N"
    by linarith
  from bins first have "P_at N (1 / rate) r0 td tb limit_k (int 0) = Inr (P ! 0)"
    by blast
  then obtain b where "safe_B_single_k 0 r0 td tb (1 / rate) default_limit_k = Inr b"
    unfolding P_at_eq_Inr by blast
  then have "td \<noteq> 0"
    by (auto simp: safe_B_single_k_def default_limit_k_def B_raw_def A_single_k_def A0_def
        bindE_eq_Inr divide_py_def split: if_splits)
  with rate tb N assms show False
    by auto
qed

lemma arange_axis:
  fixes c :: real and m :: nat
  assumes "0 < c" and "0 < m"
  shows "map (\<lambda>i. 0 + real i * (c / real m)) [0..<m] ! 0 = 0"
    and "\<And>i. i < m \<Longrightarrow> map (\<lambda>i. 0 + real i * (c / real m)) [0..<m] ! i = real i * (c / real m)"
    and "\<And>i. Suc i < m \<Longrightarrow> map (\<lambda>i. 0 + real i * (c / real m)) [0..<m] ! i
           < map (\<lambda>i. 0 + real i * (c / real m)) [0..<m] ! Suc i"
    and "\<And>i. i < m \<Longrightarrow> map (\<lambda>i. 0 + real i * (c / real m)) [0..<m] ! i < c"
proof -
  have step: "0 < c / real m"
    using assms by simp
  show "map (\<lambda>i. 0 + real i * (c / real m)) [0..<m] ! 0 = 0"
    using assms(2) by simp
  show "map (\<lambda>i. 0 + real i * (c / real m)) [0..<m] ! i = real i * (c / real m)" if "i < m" for i
    using that by simp
  show "map (\<lambda>i. 0 + real i * (c / real m)) [0..<m] ! i
      < map (\<lambda>i. 0 + real i * (c / real m)) [0..<m] ! Suc i" if "Suc i < m" for i
  proof -
    have "real i * (c / real m) < real (Suc i) * (c / real m)"
      using step by (intro mult_strict_right_mono) simp_all
    with that show ?thesis
      by simp
  qed
  show "map (\<lambda>i. 0 + real i * (c / real m)) [0..<m] ! i < c" if "i < m" for i
  proof -
    have "real i * (c / real m) < real m * (c / real m)"
      using step that by (intro mult_strict_right_mono) simp_all
    also have "\<dots> = c"
      using assms(2) by simp
    finally show ?thesis
      using that by simp
  qed
qed

subsection \<open>Which error a failing call raises\<close>


lemma bindE_eq_Inl: "bindE r f = Inl e \<longleftrightarrow> r = Inl e \<or> (\<exists>v. r = Inr v \<and> f v = Inl e)"
  by (cases r) simp_all

lemma divide_py_eq_Inl: "divide_py a b = Inl e \<longleftrightarrow> b = 0 \<and> e = ZeroDivisionError"
  by (auto simp: divide_py_def)

lemma accumulate_Inl_source: "accumulate f xs s = Inl e \<Longrightarrow> \<exists>i\<in>set xs. f i = Inl e"
  by (induction xs arbitrary: s) (auto simp: bindE_eq_Inl)

lemma fill_Inl_source: "fill f xs = Inl e \<Longrightarrow> \<exists>i\<in>set xs. f i = Inl e"
  by (induction xs) (auto simp: bindE_eq_Inl)

lemma h_IndexError: "h k n td tb tau = Inl IndexError \<Longrightarrow> tb \<noteq> 0"
  by (auto simp: h_def Let_def bindE_eq_Inl divide_py_eq_Inl split: if_splits)

lemma A_single_k_IndexError:
  assumes "A_single_k k r0 td tb tau = Inl IndexError"
  shows "td \<noteq> 0 \<and> tb \<noteq> 0"
proof (cases "k = 0")
  case True
  with assms obtain q where "divide_py tb td = Inr q"
    and "accumulate (\<lambda>n. h 1 n td tb tau) [1..<nat (py_int (max 1 (q + 1)))] 0 = Inl IndexError"
    by (auto simp: A_single_k_def A0_def bindE_eq_Inl divide_py_eq_Inl)
  then show ?thesis
    using accumulate_Inl_source h_IndexError by (fastforce simp: divide_py_def split: if_splits)
next
  case False
  let ?t = "\<lambda>n. bindE (h (k + 1) n td tb tau) (\<lambda>h1.
                 bindE (h k n td tb tau) (\<lambda>h2.
                 bindE (h (k - 1) n td tb tau) (\<lambda>h3. Inr (h1 - 2 * h2 + h3))))"
  from assms False obtain q where q: "divide_py (real_of_int (k + 2) * tb) td = Inr q"
    and "accumulate ?t [1..<nat (py_int (max 1 q) * 3)] 0 = Inl IndexError"
    by (auto simp: A_single_k_def bindE_eq_Inl divide_py_eq_Inl)
  then obtain n where "?t n = Inl IndexError"
    using accumulate_Inl_source by fastforce
  then obtain i where "h i n td tb tau = Inl IndexError"
    by (auto simp: bindE_eq_Inl)
  then have "tb \<noteq> 0"
    by (rule h_IndexError)
  moreover from q have "td \<noteq> 0"
    by (auto simp: divide_py_def split: if_splits)
  ultimately show ?thesis by simp
qed

lemma safe_B_single_k_IndexError:
  "safe_B_single_k k r0 td tb tau limit_k = Inl IndexError \<Longrightarrow> td \<noteq> 0 \<and> tb \<noteq> 0"
  using A_single_k_IndexError
  by (auto simp: safe_B_single_k_def B_raw_def bindE_eq_Inl divide_py_eq_Inl split: if_splits)

lemma P_at_IndexError:
  assumes "P_at N tau r0 td tb limit_k j = Inl IndexError"
  shows "td \<noteq> 0 \<and> tb \<noteq> 0"
proof -
  from assms consider
    "accumulate (eq8_new_val N tau r0 td tb limit_k j) [1..min N limit_k - 1] 0 = Inl IndexError"
    | "safe_B_single_k 0 r0 td tb tau default_limit_k = Inl IndexError"
    by (auto simp: P_at_def bindE_eq_Inl)
  then show ?thesis
  proof cases
    case 1
    then obtain k where "eq8_new_val N tau r0 td tb limit_k j k = Inl IndexError"
      using accumulate_Inl_source by fastforce
    then have "safe_B_single_k k r0 td tb tau limit_k = Inl IndexError"
      by (auto simp: eq8_new_val_def bindE_eq_Inl divide_py_eq_Inl)
    then show ?thesis by (rule safe_B_single_k_IndexError)
  next
    case 2
    then show ?thesis by (rule safe_B_single_k_IndexError)
  qed
qed

lemma pds_model_zhang_IndexError:
  assumes "pds_model_zhang N rate td tb limit_k = Inl IndexError"
  shows "rate \<noteq> 0 \<and> td \<noteq> 0 \<and> tb \<noteq> 0 \<and> 2 \<le> N"
proof -
  have rate: "rate \<noteq> 0"
    using assms by (auto simp: pds_model_zhang_def)
  from assms obtain tau r0 where
    "inner_loop_pds_zhang N tau r0 td tb limit_k = Inl IndexError"
    by (auto simp: pds_model_zhang_def r_det_def arange_def bindE_eq_Inl divide_py_eq_Inl
        split: if_splits)
  then have "fill (P_at N tau r0 td tb limit_k) [0..N div 2 - 1] = Inl IndexError"
    by (auto simp: inner_loop_pds_zhang_def split: if_splits)
  then obtain j where j: "j \<in> set [0..N div 2 - 1]"
    and "P_at N tau r0 td tb limit_k j = Inl IndexError"
    using fill_Inl_source by fastforce
  then have "td \<noteq> 0 \<and> tb \<noteq> 0"
    using P_at_IndexError by blast
  moreover from j have "0 < N div 2"
    by simp
  then have "2 \<le> N"
    by linarith
  ultimately show ?thesis
    using rate by simp
qed

lemma pds_model_zhang_rate_zero:
  "pds_model_zhang N 0 td tb limit_k = Inl ZeroDivisionError"
  by (simp add: pds_model_zhang_def)

section \<open>Properties of the module\<close>

subsection \<open>The ratio at index zero\<close>

text \<open>
  Claim C8. \<open>e_m_x_x_over_factorial(0, 0)\<close> is exactly 1, and for every \<open>x \<ge> 0\<close> the call
  \<open>e_m_x_x_over_factorial(x, 0)\<close> returns \<open>exp(-x)\<close>.
\<close>

theorem e_m_x_x_over_factorial_index_zero:
  "e_m_x_x_over_factorial 0 0 = Inr 1 \<and>
   (\<forall>x\<ge>0. e_m_x_x_over_factorial x 0 = Inr (exp (- x)))"
proof (intro conjI allI impI)
  show "e_m_x_x_over_factorial 0 0 = Inr 1"
    by (simp add: e_m_x_x_over_factorial_def)
next
  fix x :: real
  assume "0 \<le> x"
  show "e_m_x_x_over_factorial x 0 = Inr (exp (- x))"
  proof (cases "x = 0")
    case True
    then show ?thesis by (simp add: e_m_x_x_over_factorial_def)
  next
    case False
    with \<open>0 \<le> x\<close> have "0 < x" by simp
    then show ?thesis
      by (simp add: e_m_x_x_over_factorial_def direct_formula_zero_index
          getitem_INVERSE_FACTORIALS)
  qed
qed

theorem e_m_x_x_over_factorial_index_zero_witness:
  "(0::real) \<le> 2 \<and> e_m_x_x_over_factorial 2 0 = Inr (exp (- 2))"
  using e_m_x_x_over_factorial_index_zero by simp

subsection \<open>Round trip of the rate conversions\<close>

text \<open>
  Claim C9. For every \<open>rate > 0\<close> and every dead time with \<open>0 < dead_time < 1/rate\<close>,
  \<open>r_in(dead_time, r_det(dead_time, rate))\<close> is \<open>rate\<close>: both calls return, and in exact
  arithmetic the result is equal to \<open>rate\<close>.
\<close>

theorem r_in_r_det_round_trip:
  assumes "0 < rate" and "0 < td" and "td < 1 / rate"
  shows "bindE (r_det td rate) (r_in td) = Inr rate"
proof -
  have pos: "0 < 1 / rate + td"
    using assms by (simp add: add_pos_pos)
  then have det: "r_det td rate = Inr (1 / (1 / rate + td))"
    using assms by (simp add: r_det_def)
  have nz: "1 / (1 / rate + td) \<noteq> 0"
    using pos by simp
  have inv_eq: "1 / (1 / (1 / rate + td)) - td = 1 / rate"
    using pos by simp
  have "r_in td (1 / (1 / rate + td)) = Inr rate"
    using assms nz by (simp add: r_in_def inv_eq)
  then show ?thesis
    by (simp add: det)
qed

theorem r_in_r_det_round_trip_witness:
  "(0::real) < 100 \<and> (0::real) < 1 / 1000 \<and> (1::real) / 1000 < 1 / 100 \<and>
   bindE (r_det (1 / 1000) 100) (r_in (1 / 1000)) = Inr 100"
  using r_in_r_det_round_trip [of 100 "1 / 1000"] by simp

subsection \<open>The bound of the table of inverse factorials\<close>

text \<open>
  Claim C2, at \<open>Gn(0, 101)\<close>. The claim expects every read of the table of inverse
  factorials at an index \<open>m \<ge> MAX_FACTORIAL\<close> to be refused, or not to happen. The source
  has no such check. At \<open>x = 0\<close> the test \<open>m * log10(x) < 50\<close> of the direct formula holds for
  every \<open>m \<ge> 1\<close>, so \<open>e_m_x_x_over_factorial(0, 100)\<close> reads the table, which has 100
  entries, at index 100; and \<open>Gn(0, 101)\<close>, whose loop never exits early at \<open>x = 0\<close>, reaches
  that read.
\<close>

theorem Gn_reads_outside_table:
  "length INVERSE_FACTORIALS = MAX_FACTORIAL \<and> direct_formula 0 MAX_FACTORIAL \<and>
   e_m_x_x_over_factorial 0 MAX_FACTORIAL = Inl IndexError \<and>
   Gn 0 (MAX_FACTORIAL + 1) = Inl IndexError"
proof (intro conjI)
  show "length INVERSE_FACTORIALS = MAX_FACTORIAL"
    by (simp add: MAX_FACTORIAL_def)
  show "direct_formula 0 MAX_FACTORIAL"
    by (simp add: direct_formula_def MAX_FACTORIAL_def)
  show "e_m_x_x_over_factorial 0 MAX_FACTORIAL = Inl IndexError"
    by (simp add: e_m_x_x_over_factorial_at_zero MAX_FACTORIAL_def)
  show "Gn 0 (MAX_FACTORIAL + 1) = Inl IndexError"
    by (rule Gn_at_zero_overflow) (simp add: MAX_FACTORIAL_def)
qed

subsection \<open>The series at \<open>x = 0\<close>\<close>

text \<open>
  Claim C10. For every \<open>n\<close> with \<open>0 \<le> n < MAX_FACTORIAL\<close>, \<open>Gn(0, n)\<close> returns \<open>n\<close>: the
  term of index 0 is \<open>1 * n\<close> by the special case of \<open>e_m_x_x_over_factorial\<close>, every term
  of index \<open>m \<ge> 1\<close> is 0, and the loop runs to its end. So at the boundary of its support,
  where \<open>k * tb - n * td = 0\<close>, \<open>h\<close> returns \<open>k - n * td / tb\<close>.
\<close>

theorem Gn_at_zero_is_n:
  assumes "n < MAX_FACTORIAL"
  shows "Gn 0 n = Inr (real n) \<and>
         e_m_x_x_over_factorial 0 0 = Inr 1 \<and>
         (\<forall>m. 0 < m \<and> m < n \<longrightarrow> e_m_x_x_over_factorial 0 m = Inr 0) \<and>
         (\<forall>k td tb tau. real_of_int k * tb - real n * td = 0 \<and> tb \<noteq> 0 \<and> tau \<noteq> 0 \<longrightarrow>
            h k n td tb tau = Inr (real_of_int k - real n * td / tb))"
proof -
  from assms have n: "n \<le> 100" and n': "n < 100"
    by (simp_all add: MAX_FACTORIAL_def)
  have "Gn 0 n = Inr (real n)"
    using n by (rule Gn_at_zero)
  moreover have "e_m_x_x_over_factorial 0 0 = Inr 1"
    by (simp add: e_m_x_x_over_factorial_def)
  moreover have "e_m_x_x_over_factorial 0 m = Inr 0" if "0 < m \<and> m < n" for m
    using that n' by (simp add: e_m_x_x_over_factorial_at_zero)
  moreover have "h k n td tb tau = Inr (real_of_int k - real n * td / tb)"
    if "real_of_int k * tb - real n * td = 0 \<and> tb \<noteq> 0 \<and> tau \<noteq> 0" for k td tb tau
    using that n by (simp add: h_at_boundary)
  ultimately show ?thesis
    by blast
qed

theorem Gn_at_zero_is_n_witness:
  "5 < MAX_FACTORIAL \<and> Gn 0 5 = Inr 5 \<and> e_m_x_x_over_factorial 0 3 = Inr 0 \<and>
   h 1 5 (1 / 5) 1 2 = Inr (1 - 5 * (1 / 5) / 1)"
proof -
  have small: "5 < MAX_FACTORIAL"
    by (simp add: MAX_FACTORIAL_def)
  from Gn_at_zero_is_n [OF small] have
    "Gn 0 5 = Inr 5" and
    "\<forall>m. 0 < m \<and> m < 5 \<longrightarrow> e_m_x_x_over_factorial 0 m = Inr 0" and
    "\<forall>k td tb tau. real_of_int k * tb - real 5 * td = 0 \<and> tb \<noteq> 0 \<and> tau \<noteq> 0 \<longrightarrow>
       h k 5 td tb tau = Inr (real_of_int k - real 5 * td / tb)"
    by simp_all
  from this(1) this(2) [rule_format, of 3] this(3) [rule_format, of 1 1 "1 / 5" 2] small
  show ?thesis
    by simp
qed

subsection \<open>The terms \<open>A\<close>\<close>

text \<open>
  Claim C4. For positive \<open>td\<close> and \<open>tb\<close> (and any \<open>r0\<close>, \<open>tau\<close>), \<open>A0\<close> returns
  \<open>r0 * tb * (1 + 2 * S)\<close>, where \<open>S\<close> is the sum of \<open>h(1, n, td, tb, tau)\<close> over \<open>n\<close> from 1
  to \<open>N0\<close> inclusive and \<open>N0\<close> is \<open>max(1, tb / td + 1)\<close> rounded down: \<open>A0\<close> returns a value \<open>a\<close>
  exactly when each of these calls of \<open>h\<close> returns and \<open>a\<close> is that expression of their
  values. (The loop of the code stops before \<open>N0\<close>; the term of index \<open>N0\<close> is zero.)
\<close>

theorem A0_formula:
  assumes "0 < td" and "0 < tb"
  shows "A0 r0 td tb tau = Inr a \<longleftrightarrow>
     (\<exists>hv. (\<forall>n\<in>{1..nat \<lfloor>max 1 (tb / td + 1)\<rfloor>}. h 1 n td tb tau = Inr (hv n)) \<and>
        a = r0 * tb * (1 + 2 * (\<Sum>n = 1..nat \<lfloor>max 1 (tb / td + 1)\<rfloor>. hv n)))"
proof -
  let ?N = "nat \<lfloor>max 1 (tb / td + 1)\<rfloor>"
  note bnd = A0_bound [OF assms]
  have last: "h 1 ?N td tb tau = Inr 0"
    using bnd(3) by (rule h_outside_support)
  have A0_eq: "A0 r0 td tb tau =
      bindE (accumulate (\<lambda>n. h 1 n td tb tau) [1..<?N] 0) (\<lambda>s. Inr (r0 * tb * (1 + 2 * s)))"
    using assms bnd(1) by (simp add: A0_def)
  show ?thesis
  proof
    assume "A0 r0 td tb tau = Inr a"
    then obtain s where acc: "accumulate (\<lambda>n. h 1 n td tb tau) [1..<?N] 0 = Inr s"
      and a: "a = r0 * tb * (1 + 2 * s)"
      unfolding A0_eq by (auto simp: bindE_eq_Inr)
    from acc obtain g where g: "\<forall>n\<in>set [1..<?N]. h 1 n td tb tau = Inr (g n)"
      and s: "s = sum_list (map g [1..<?N])"
      by (auto simp: accumulate_eq_Inr)
    let ?hv = "\<lambda>n. if n < ?N then g n else 0"
    have "\<forall>n\<in>{1..?N}. h 1 n td tb tau = Inr (?hv n)"
      using g last by (auto simp: le_less)
    moreover have "(\<Sum>n = 1..?N. ?hv n) = sum_list (map ?hv [1..<?N])"
      by (rule sum_zero_tail) auto
    moreover have "sum_list (map ?hv [1..<?N]) = s"
      unfolding s by (intro arg_cong [where f = sum_list] map_cong) auto
    ultimately show "\<exists>hv. (\<forall>n\<in>{1..?N}. h 1 n td tb tau = Inr (hv n)) \<and>
        a = r0 * tb * (1 + 2 * (\<Sum>n = 1..?N. hv n))"
      using a by (intro exI [of _ ?hv]) simp
  next
    assume "\<exists>hv. (\<forall>n\<in>{1..?N}. h 1 n td tb tau = Inr (hv n)) \<and>
        a = r0 * tb * (1 + 2 * (\<Sum>n = 1..?N. hv n))"
    then obtain hv where hv: "\<forall>n\<in>{1..?N}. h 1 n td tb tau = Inr (hv n)"
      and a: "a = r0 * tb * (1 + 2 * (\<Sum>n = 1..?N. hv n))"
      by blast
    have "hv ?N = 0"
      using hv last bnd(2) by auto
    then have "(\<Sum>n = 1..?N. hv n) = sum_list (map hv [1..<?N])"
      by (intro sum_zero_tail) auto
    moreover have "accumulate (\<lambda>n. h 1 n td tb tau) [1..<?N] 0 = Inr (0 + sum_list (map hv [1..<?N]))"
      using hv by (intro accumulate_Inr) auto
    ultimately show "A0 r0 td tb tau = Inr a"
      unfolding A0_eq using a by simp
  qed
qed

theorem A0_formula_witness:
  "(0::real) < 1 \<and> (0::real) < 2 \<and> A0 3 1 2 1 = Inr (3 * 2 * (1 + 2 * (exp (- 1) / 2)))"
proof -
  let ?hv = "\<lambda>n::nat. if n = 1 then exp (- 1) / 2 else (0::real)"
  have N: "nat \<lfloor>max 1 (2 / 1 + 1 :: real)\<rfloor> = 3"
    by simp
  have "h 1 n 1 2 1 = Inr (?hv n)" if "n \<in> {1..3}" for n
  proof -
    from that consider "n = 1" | "n = 2" | "n = 3" by force
    then show ?thesis
    proof cases
      case 1
      then show ?thesis by (simp add: h_at_one)
    next
      case 2
      then show ?thesis by (simp add: h_at_boundary)
    next
      case 3
      then show ?thesis by (simp add: h_outside_support)
    qed
  qed
  moreover have "(\<Sum>n = 1..3. ?hv n) = exp (- 1) / 2"
    by (simp add: sum.atLeast_Suc_atMost numeral_3_eq_3)
  ultimately have "\<exists>hv. (\<forall>n\<in>{1..3}. h 1 n 1 2 1 = Inr (hv n)) \<and>
      3 * 2 * (1 + 2 * (exp (- 1) / 2)) = 3 * 2 * (1 + 2 * (\<Sum>n = 1..3. hv n))"
    by (intro exI [of _ ?hv]) simp
  with A0_formula [of 1 2 3 1 "3 * 2 * (1 + 2 * (exp (- 1) / 2))"] N show ?thesis
    by simp
qed

text \<open>
  Claim C3. For \<open>k \<ge> 1\<close> and positive \<open>td\<close> and \<open>tb\<close> (and any \<open>r0\<close>, \<open>tau\<close>), \<open>A_single_k\<close>
  returns \<open>r0 * tb\<close> times the sum over \<open>n\<close> from 1 to \<open>N_k\<close> inclusive of
  \<open>h(k + 1, n) - 2 * h(k, n) + h(k - 1, n)\<close>, where \<open>N_k\<close> is \<open>3 * max(1, (k + 2) * tb / td)\<close>
  rounded down, read either as the floor of the product or as three times the floor of
  the maximum: \<open>A_single_k\<close> returns a value \<open>a\<close> exactly when each of these calls of \<open>h\<close>
  returns and \<open>a\<close> is that expression of their values. (The loop of the code stops before
  three times the floor of the maximum; the terms from there on are zero.)
\<close>

theorem A_single_k_formula:
  assumes "1 \<le> k" and "0 < td" and "0 < tb"
    and "N_k = nat \<lfloor>3 * max 1 (real_of_int (k + 2) * tb / td)\<rfloor> \<or>
         N_k = 3 * nat \<lfloor>max 1 (real_of_int (k + 2) * tb / td)\<rfloor>"
  shows "A_single_k k r0 td tb tau = Inr a \<longleftrightarrow>
     (\<exists>hv. (\<forall>n\<in>{1..N_k}. h (k + 1) n td tb tau = Inr (hv (k + 1) n) \<and>
                           h k n td tb tau = Inr (hv k n) \<and>
                           h (k - 1) n td tb tau = Inr (hv (k - 1) n)) \<and>
        a = r0 * tb * (\<Sum>n = 1..N_k. hv (k + 1) n - 2 * hv k n + hv (k - 1) n))"
proof -
  let ?y = "max 1 (real_of_int (k + 2) * tb / td)"
  have "3 * \<lfloor>?y\<rfloor> \<le> \<lfloor>3 * ?y\<rfloor>"
    by (simp add: le_floor_iff)
  moreover have "0 \<le> \<lfloor>?y\<rfloor>"
    by (simp add: le_floor_iff)
  ultimately have "3 * nat \<lfloor>?y\<rfloor> \<le> nat \<lfloor>3 * ?y\<rfloor>"
    by linarith
  with assms(4) have "3 * nat \<lfloor>?y\<rfloor> \<le> Suc N_k"
    by auto
  with assms(1-3) show ?thesis
    by (rule A_single_k_sum)
qed

theorem A_single_k_formula_witness:
  "(1::int) \<le> 1 \<and> (0::real) < 1 \<and>
   (9::nat) = nat \<lfloor>3 * max 1 (real_of_int (1 + 2) * 1 / 1)\<rfloor> \<and>
   A_single_k 1 (1 / 2) 1 1 1 = Inr (1 / 2 * 1 * exp (- 1))"
proof -
  let ?hv = "\<lambda>(j::int) (n::nat). if j = 2 \<and> n = 1 then exp (- 1) else (0::real)"
  have N: "(9::nat) = nat \<lfloor>3 * max 1 (real_of_int (1 + 2) * 1 / 1)\<rfloor>"
    by simp
  have iff: "A_single_k 1 (1 / 2) 1 1 1 = Inr (1 / 2 * 1 * exp (- 1)) \<longleftrightarrow>
     (\<exists>hv. (\<forall>n\<in>{1..9}. h (1 + 1) n 1 1 1 = Inr (hv ((1::int) + 1) n) \<and>
                         h 1 n 1 1 1 = Inr (hv (1::int) n) \<and>
                         h (1 - 1) n 1 1 1 = Inr (hv ((1::int) - 1) n)) \<and>
        1 / 2 * 1 * exp (- 1) =
          1 / 2 * 1 * (\<Sum>n = 1..9. hv ((1::int) + 1) n - 2 * hv (1::int) n + hv ((1::int) - 1) n))"
    by (rule A_single_k_formula) simp_all
  have hs: "h (1 + 1) n 1 1 1 = Inr (?hv ((1::int) + 1) n) \<and> h 1 n 1 1 1 = Inr (?hv (1::int) n) \<and>
      h (1 - 1) n 1 1 1 = Inr (?hv ((1::int) - 1) n)" if "n \<in> {1..9}" for n
  proof -
    from that consider "n = 1" | "n = 2" | "3 \<le> n" by force
    then show ?thesis
    proof cases
      case 1
      then show ?thesis by (simp add: h_at_one h_at_boundary h_outside_support)
    next
      case 2
      then show ?thesis by (simp add: h_at_boundary h_outside_support)
    next
      case 3
      then show ?thesis by (simp add: h_outside_support)
    qed
  qed
  have total: "(\<Sum>n = 1..9. ?hv ((1::int) + 1) n - 2 * ?hv (1::int) n + ?hv ((1::int) - 1) n) = exp (- 1)"
    by (simp add: sum.atLeast_Suc_atMost)
  have inst: "(\<forall>n\<in>{1..9}. h (1 + 1) n 1 1 1 = Inr (?hv ((1::int) + 1) n) \<and>
                         h 1 n 1 1 1 = Inr (?hv (1::int) n) \<and>
                         h (1 - 1) n 1 1 1 = Inr (?hv ((1::int) - 1) n)) \<and>
        1 / 2 * 1 * exp (- 1) =
          1 / 2 * 1 * (\<Sum>n = 1..9. ?hv ((1::int) + 1) n - 2 * ?hv (1::int) n + ?hv ((1::int) - 1) n)"
    unfolding total using hs by blast
  have "A_single_k 1 (1 / 2) 1 1 1 = Inr (1 / 2 * 1 * exp (- 1))"
    by (rule iffD2 [OF iff]) (rule exI [of _ ?hv], rule inst)
  with N show ?thesis
    by simp
qed

subsection \<open>The terms \<open>B\<close>\<close>

text \<open>
  Claim C5. For \<open>k \<ge> 0\<close> and positive \<open>r0\<close> and \<open>tb\<close>, \<open>safe_B_single_k\<close> returns 0 when
  \<open>k > limit_k\<close> (60 by default) and is \<open>B_raw\<close> otherwise, and \<open>B_raw\<close> is
  \<open>c * (A(k) - r0\<^sup>2 * tb\<^sup>2) / (r0 * tb)\<close> with \<open>c = 2\<close> for \<open>k = 0\<close> and \<open>c = 4\<close> for \<open>k \<ge> 1\<close>,
  whenever \<open>A_single_k\<close> returns (and raises what \<open>A_single_k\<close> raises otherwise).
\<close>

theorem safe_B_single_k_cases:
  assumes "0 \<le> k" and "0 < r0" and "0 < tb"
  shows "default_limit_k = 60 \<and>
         (k > limit_k \<longrightarrow> safe_B_single_k k r0 td tb tau limit_k = Inr 0) \<and>
         (k \<le> limit_k \<longrightarrow> safe_B_single_k k r0 td tb tau limit_k = B_raw k r0 td tb tau) \<and>
         B_raw k r0 td tb tau =
           bindE (A_single_k k r0 td tb tau) (\<lambda>a.
             Inr ((if k = 0 then 2 else 4) * (a - r0\<^sup>2 * tb\<^sup>2) / (r0 * tb)))"
proof -
  have "r0 * tb \<noteq> 0"
    using assms by simp
  then have "B_raw k r0 td tb tau =
      bindE (A_single_k k r0 td tb tau) (\<lambda>a.
        Inr ((if k = 0 then 2 else 4) * (a - r0\<^sup>2 * tb\<^sup>2) / (r0 * tb)))"
    by (simp add: B_raw_def)
  then show ?thesis
    by (simp add: safe_B_single_k_def default_limit_k_def)
qed

theorem safe_B_single_k_cases_witness:
  "(0::int) \<le> 70 \<and> (0::real) < 1 / 2 \<and> (0::real) < 1 \<and> (70::int) > 60 \<and>
   safe_B_single_k 70 (1 / 2) 1 1 1 60 = Inr 0 \<and>
   safe_B_single_k 70 (1 / 2) 1 1 1 80 = B_raw 70 (1 / 2) 1 1 1 \<and>
   B_raw 70 (1 / 2) 1 1 1 =
     bindE (A_single_k 70 (1 / 2) 1 1 1) (\<lambda>a. Inr (4 * (a - (1 / 2)\<^sup>2 * 1\<^sup>2) / (1 / 2 * 1)))"
  using safe_B_single_k_cases [of 70 "1 / 2" 1 60 1 1] safe_B_single_k_cases [of 70 "1 / 2" 1 80 1 1]
  by simp

subsection \<open>The power spectrum\<close>

text \<open>
  Claim C6. Whenever \<open>pds_model_zhang\<close> returns, for every frequency bin \<open>j\<close> with
  \<open>0 \<le> j < N div 2\<close> the power \<open>P[j]\<close> is
  \<open>safe_B(0) + \<Sum>k = 1..min(N, limit_k) - 1. (N - k) / N * safe_B(k) * cos(2 \<pi> j k / N)\<close>,
  where the terms \<open>safe_B\<close> are the values returned by \<open>safe_B_single_k\<close> at
  \<open>r0 = r_det(td, rate)\<close> and \<open>tau = 1 / rate\<close>. The term of lag 0 is computed with the
  default \<open>limit_k\<close>, which for \<open>limit_k \<ge> 0\<close> is the value computed with \<open>limit_k\<close>.
\<close>

theorem pds_model_zhang_power:
  assumes "pds_model_zhang N rate td tb limit_k = Inr out" and "0 \<le> j" and "j < N div 2"
  shows "\<exists>r0 B. r_det td rate = Inr r0 \<and>
     safe_B_single_k 0 r0 td tb (1 / rate) default_limit_k = Inr (B 0) \<and>
     (0 \<le> limit_k \<longrightarrow> safe_B_single_k 0 r0 td tb (1 / rate) limit_k = Inr (B 0)) \<and>
     (\<forall>k\<in>{1..min N limit_k - 1}. safe_B_single_k k r0 td tb (1 / rate) limit_k = Inr (B k)) \<and>
     power out ! nat j =
       B 0 + (\<Sum>k = 1..min N limit_k - 1.
                real_of_int (N - k) / real_of_int N * B k *
                cos (2 * pi * real_of_int j * real_of_int k / real_of_int N))"
proof -
  from assms(1) obtain r0 where r0: "r_det td rate = Inr r0"
    and P: "inner_loop_pds_zhang N (1 / rate) r0 td tb limit_k = Inr (power out)"
    unfolding pds_model_zhang_eq_Inr by auto
  from assms(2,3) have "nat j < nat (N div 2)" and "int (nat j) = j"
    by simp_all
  with P have "P_at N (1 / rate) r0 td tb limit_k j = Inr (power out ! nat j)"
    unfolding inner_loop_pds_zhang_eq_Inr by metis
  then obtain B where b0: "safe_B_single_k 0 r0 td tb (1 / rate) default_limit_k = Inr (B 0)"
    and B: "\<forall>k\<in>{1..min N limit_k - 1}. safe_B_single_k k r0 td tb (1 / rate) limit_k = Inr (B k)"
    and p: "power out ! nat j =
       B 0 + (\<Sum>k = 1..min N limit_k - 1.
                real_of_int (N - k) / real_of_int N * B k *
                cos (2 * pi * real_of_int j * real_of_int k / real_of_int N))"
    unfolding P_at_eq_Inr by blast
  have "safe_B_single_k 0 r0 td tb (1 / rate) limit_k = Inr (B 0)" if "0 \<le> limit_k"
    using b0 that by (simp add: safe_B_single_k_def default_limit_k_def)
  with r0 b0 B p show ?thesis
    by blast
qed

theorem pds_model_zhang_power_witness:
  "\<exists>out r0 B. pds_model_zhang 4 2 1 (1 / 2) 60 = Inr out \<and> (0::int) \<le> 1 \<and> (1::int) < 4 div 2 \<and>
     r_det 1 2 = Inr r0 \<and>
     safe_B_single_k 0 r0 1 (1 / 2) (1 / 2) default_limit_k = Inr (B 0) \<and>
     safe_B_single_k 1 r0 1 (1 / 2) (1 / 2) 60 = Inr (B 1) \<and>
     power out ! nat 1 =
       B 0 + (\<Sum>k = 1..min 4 60 - 1.
                real_of_int (4 - k) / real_of_int 4 * B k *
                cos (2 * pi * real_of_int 1 * real_of_int k / real_of_int 4))"
proof -
  obtain out where out: "pds_model_zhang 4 2 1 (1 / 2) 60 = Inr out"
    using pds_model_zhang_returns [of 4 2 1 "1 / 2" 60] by auto
  from pds_model_zhang_power [OF out, of 1] obtain r0 B where
    "r_det 1 2 = Inr r0"
    "safe_B_single_k 0 r0 1 (1 / 2) (1 / 2) default_limit_k = Inr (B 0)"
    "\<forall>k\<in>{1..min 4 60 - 1}. safe_B_single_k k r0 1 (1 / 2) (1 / 2) 60 = Inr (B k)"
    "power out ! nat 1 =
       B 0 + (\<Sum>k = 1..min 4 60 - 1.
                real_of_int (4 - k) / real_of_int 4 * B k *
                cos (2 * pi * real_of_int 1 * real_of_int k / real_of_int 4))"
    by auto
  with out show ?thesis
    by (intro exI [of _ out] exI [of _ r0] exI [of _ B]) simp
qed

subsection \<open>Inputs outside the documented domain\<close>

text \<open>
  Claim C1, as stated, at \<open>N = 100\<close>, \<open>rate = 10.0\<close>, \<open>td = 0.2\<close>, \<open>tb = 0.01\<close>: the dead time
  is not below \<open>1 / rate\<close>, and the call does not fail; it returns two arrays of length 50.
\<close>

theorem pds_model_zhang_no_domain_error:
  "(1::real) / 10 \<le> 1 / 5 \<and>
   \<not> isl (pds_model_zhang 100 10 (1 / 5) (1 / 100) 60) \<and>
   length (freqs (projr (pds_model_zhang 100 10 (1 / 5) (1 / 100) 60))) = 50 \<and>
   length (power (projr (pds_model_zhang 100 10 (1 / 5) (1 / 100) 60))) = 50"
proof -
  obtain out where "pds_model_zhang 100 10 (1 / 5) (1 / 100) 60 = Inr out"
    "length (freqs out) = nat (100 div 2)" "length (power out) = nat (100 div 2)"
    using pds_model_zhang_returns [of 100 10 "1 / 5" "1 / 100" 60] by auto
  then show ?thesis
    by simp
qed

text \<open>
  Claim C1, amended. \<open>pds_model_zhang\<close> fails, with \<open>ZeroDivisionError\<close> or \<open>ValueError\<close>,
  for every input with \<open>N \<le> 0\<close>, \<open>rate = 0\<close>, \<open>td = 0\<close> or \<open>tb = 0\<close>: a division by zero or an
  array of negative length occurs there. A dead time that is not below \<open>1 / rate\<close> is not
  refused: the call with \<open>N = 100\<close>, \<open>rate = 10.0\<close>, \<open>td = 0.2\<close>, \<open>tb = 0.01\<close> returns a result.
\<close>

theorem pds_model_zhang_unchecked_preconditions:
  "(N \<le> 0 \<or> rate = 0 \<or> td = 0 \<or> tb = 0 \<longrightarrow>
      pds_model_zhang N rate td tb limit_k = Inl ZeroDivisionError \<or>
      pds_model_zhang N rate td tb limit_k = Inl ValueError) \<and>
   (1::real) / 10 \<le> 1 / 5 \<and> \<not> isl (pds_model_zhang 100 10 (1 / 5) (1 / 100) 60)"
proof (intro conjI impI)
  assume zero: "N \<le> 0 \<or> rate = 0 \<or> td = 0 \<or> tb = 0"
  then have "isl (pds_model_zhang N rate td tb limit_k)"
    by (intro zero_argument_raises) auto
  then obtain e where e: "pds_model_zhang N rate td tb limit_k = Inl e"
    by (cases "pds_model_zhang N rate td tb limit_k") auto
  have "e \<noteq> IndexError"
    using pds_model_zhang_IndexError [of N rate td tb limit_k] zero e by auto
  then have "e = ZeroDivisionError \<or> e = ValueError"
    by (cases e) simp_all
  with e show "pds_model_zhang N rate td tb limit_k = Inl ZeroDivisionError \<or>
      pds_model_zhang N rate td tb limit_k = Inl ValueError"
    by auto
next
  show "(1::real) / 10 \<le> 1 / 5"
    by simp
next
  obtain out where "pds_model_zhang 100 10 (1 / 5) (1 / 100) 60 = Inr out"
    using pds_model_zhang_returns [of 100 10 "1 / 5" "1 / 100" 60] by auto
  then show "\<not> isl (pds_model_zhang 100 10 (1 / 5) (1 / 100) 60)"
    by simp
qed

theorem pds_model_zhang_unchecked_preconditions_witness:
  "(0::int) \<le> 0 \<and>
   (pds_model_zhang 0 10 (1 / 5) (1 / 100) 60 = Inl ZeroDivisionError \<or>
    pds_model_zhang 0 10 (1 / 5) (1 / 100) 60 = Inl ValueError) \<and>
   (pds_model_zhang (- 4) 10 (1 / 5) (1 / 100) 60 = Inl ZeroDivisionError \<or>
    pds_model_zhang (- 4) 10 (1 / 5) (1 / 100) 60 = Inl ValueError) \<and>
   (pds_model_zhang 100 0 (1 / 5) (1 / 100) 60 = Inl ZeroDivisionError \<or>
    pds_model_zhang 100 0 (1 / 5) (1 / 100) 60 = Inl ValueError) \<and>
   (pds_model_zhang 100 10 0 (1 / 100) 60 = Inl ZeroDivisionError \<or>
    pds_model_zhang 100 10 0 (1 / 100) 60 = Inl ValueError) \<and>
   (pds_model_zhang 100 10 (1 / 5) 0 60 = Inl ZeroDivisionError \<or>
    pds_model_zhang 100 10 (1 / 5) 0 60 = Inl ValueError)"
  using pds_model_zhang_unchecked_preconditions [of 0 10 "1 / 5" "1 / 100" 60]
    pds_model_zhang_unchecked_preconditions [of "- 4" 10 "1 / 5" "1 / 100" 60]
    pds_model_zhang_unchecked_preconditions [of 100 0 "1 / 5" "1 / 100" 60]
    pds_model_zhang_unchecked_preconditions [of 100 10 0 "1 / 100" 60]
    pds_model_zhang_unchecked_preconditions [of 100 10 "1 / 5" 0 60]
  by simp

subsection \<open>The result of \<open>pds_model_zhang\<close>\<close>

text \<open>
  The frequency axis, in exact arithmetic. Whenever the call returns, for a positive bin
  time, both arrays have length \<open>N div 2\<close> (and \<open>N \<ge> 2\<close>), the first frequency is 0, the
  frequencies are the multiples of \<open>df = maxf / len(P)\<close> with \<open>maxf = 0.5 / tb\<close>, strictly
  increasing, and all below \<open>maxf\<close>. In doubles \<open>np.arange\<close> can return one frequency more
  (see \<open>arange\<close>), so the two lengths need not agree there.
\<close>

lemma pds_model_zhang_frequency_axis:
  assumes "pds_model_zhang N rate td tb limit_k = Inr out" and "0 < tb"
  shows "2 \<le> N"
    and "length (freqs out) = nat (N div 2)" and "length (power out) = nat (N div 2)"
    and "freqs out ! 0 = 0"
    and "\<And>i. i < length (freqs out) \<Longrightarrow>
           freqs out ! i = real i * (0.5 / tb / real (length (power out)))"
    and "\<And>i. Suc i < length (freqs out) \<Longrightarrow> freqs out ! i < freqs out ! Suc i"
    and "\<And>i. i < length (freqs out) \<Longrightarrow> freqs out ! i < 0.5 / tb"
proof -
  from assms(1) obtain r0 P where
    P: "inner_loop_pds_zhang N (1 / rate) r0 td tb limit_k = Inr P" and nonempty: "P \<noteq> []"
    and out: "out = \<lparr>freqs = map (\<lambda>i. 0 + real i * (0.5 / tb / real (length P))) [0..<length P],
               power = P, warned = (100 * td < tb)\<rparr>"
    unfolding pds_model_zhang_eq_Inr by blast
  from P have len: "length P = nat (N div 2)"
    by (simp add: inner_loop_pds_zhang_eq_Inr)
  from nonempty have pos: "0 < length P"
    by simp
  with len show "2 \<le> N"
    by linarith
  have fs: "freqs out = map (\<lambda>i. 0 + real i * (0.5 / tb / real (length P))) [0..<length P]"
    and pw: "power out = P"
    using out by simp_all
  then have lf: "length (freqs out) = length P"
    by simp
  show "length (freqs out) = nat (N div 2)" and "length (power out) = nat (N div 2)"
    using lf pw len by simp_all
  have c: "0 < 0.5 / tb"
    using assms(2) by simp
  note axis = arange_axis [OF c pos]
  show "freqs out ! 0 = 0"
    unfolding fs by (rule axis(1))
  show "freqs out ! i = real i * (0.5 / tb / real (length (power out)))"
    if "i < length (freqs out)" for i
    using that unfolding lf unfolding fs pw by (rule axis(2))
  show "freqs out ! i < freqs out ! Suc i" if "Suc i < length (freqs out)" for i
    using that unfolding lf unfolding fs by (rule axis(3))
  show "freqs out ! i < 0.5 / tb" if "i < length (freqs out)" for i
    using that unfolding lf unfolding fs by (rule axis(4))
qed

text \<open>
  Claim C7, at its instance \<open>N = 1024\<close>, \<open>rate = 100.0\<close>, \<open>td = 1e-4\<close>, \<open>tb = 1e-2\<close>. The
  claim expects two arrays of length 512. The call raises \<open>IndexError\<close> instead: for
  \<open>k = 1\<close> the loop of \<open>A_single_k\<close> reaches \<open>n = 200\<close>, where \<open>h(2, 200, ...)\<close> has
  \<open>factor = 2 * tb - 200 * td = 0\<close> and calls \<open>Gn(0, 200)\<close>, whose loop never exits early at
  \<open>x = 0\<close> and reads the table of inverse factorials at index 100.
\<close>

theorem pds_model_zhang_raises:
  "pds_model_zhang 1024 100 (1 / 10000) (1 / 100) 60 = Inl IndexError"
proof -
  have "safe_B_single_k 1 r0 (1 / 10000) (1 / 100) (1 / 100) 60 = Inl IndexError" for r0
    by (simp add: safe_B_single_k_def B_raw_def A_single_k_raises_example)
  then have "inner_loop_pds_zhang 1024 (1 / 100) r0 (1 / 10000) (1 / 100) 60 = Inl IndexError"
    for r0
    by (intro inner_loop_pds_zhang_raises) simp_all
  then show ?thesis
    by (simp add: pds_model_zhang_def r_det_def)
qed

end
